theory Spec2Isabelle
  imports Main "HOL-Library.Word" "HOL-Library.Char_ord" "HOL-Library.List_Lexorder"
begin

section \<open>JSON values as the program uses them\<close>

text \<open>
  The program manipulates \<^verbatim>\<open>nlohmann::json\<close> values. A value is null, a boolean, a number,
  a string, an array or an object; an object is a \<^verbatim>\<open>std::map\<close>, that is, its entries have
  distinct keys and are iterated in ascending key order. Objects and every other
  \<^verbatim>\<open>std::map<std::string, _>\<close> of the program are association lists kept in that order by
  \<open>smap_set\<close>. Strings are byte strings. An integer number (signed or unsigned) is \<open>JInt\<close>.
  A floating-point number is \<open>JFloat text i\<close>: it is given by the two things the program can
  observe of it, the text that \<^verbatim>\<open>dump()\<close> writes for it and the value \<open>i\<close> of its cast to
  \<^verbatim>\<open>int\<close>; no arithmetic is done on it.
\<close>

datatype json =
    JNull
  | JBool bool
  | JInt int
  | JFloat string int
  | JString string
  | JArray "json list"
  | JObject "(string \<times> json) list"

text \<open>
  Exceptions are values. \<open>JsonTypeError n msg\<close> is \<^verbatim>\<open>json::type_error\<close> with id \<open>n\<close> (a
  \<^verbatim>\<open>json::exception\<close>); \<open>StdException msg\<close> is any other \<^verbatim>\<open>std::exception\<close>, such as the
  \<^verbatim>\<open>std::runtime_error\<close> the server throws.
\<close>

datatype exn = JsonTypeError nat string | StdException string

text \<open>\<^verbatim>\<open>m[k] = v\<close> on a \<^verbatim>\<open>std::map\<close>: overwrite the entry, or insert it at its place.\<close>

fun smap_set :: "string \<Rightarrow> 'v \<Rightarrow> (string \<times> 'v) list \<Rightarrow> (string \<times> 'v) list" where
  "smap_set k v [] = [(k, v)]"
| "smap_set k v ((k', v') # m) =
     (if k = k' then (k, v) # m
      else if k < k' then (k, v) # (k', v') # m
      else (k', v') # smap_set k v m)"

text \<open>An object written as an initializer list of pairs; the first of two equal keys wins.\<close>

definition jobject :: "(string \<times> json) list \<Rightarrow> json" where
  "jobject kvs = JObject (foldr (\<lambda>(k, v) m. smap_set k v m) kvs [])"

fun type_name :: "json \<Rightarrow> string" where
  "type_name JNull = ''null''"
| "type_name (JBool _) = ''boolean''"
| "type_name (JInt _) = ''number''"
| "type_name (JFloat _ _) = ''number''"
| "type_name (JString _) = ''string''"
| "type_name (JArray _) = ''array''"
| "type_name (JObject _) = ''object''"

fun is_null :: "json \<Rightarrow> bool" where
  "is_null JNull = True"
| "is_null _ = False"

fun is_boolean :: "json \<Rightarrow> bool" where
  "is_boolean (JBool _) = True"
| "is_boolean _ = False"

fun is_number_integer :: "json \<Rightarrow> bool" where
  "is_number_integer (JInt _) = True"
| "is_number_integer _ = False"

fun is_number :: "json \<Rightarrow> bool" where
  "is_number (JInt _) = True"
| "is_number (JFloat _ _) = True"
| "is_number _ = False"

fun is_string :: "json \<Rightarrow> bool" where
  "is_string (JString _) = True"
| "is_string _ = False"

fun is_array :: "json \<Rightarrow> bool" where
  "is_array (JArray _) = True"
| "is_array _ = False"

fun is_object :: "json \<Rightarrow> bool" where
  "is_object (JObject _) = True"
| "is_object _ = False"

text \<open>
  \<open>jget j k\<close> is the entry of \<open>j\<close> under \<open>k\<close>: \<open>Some v\<close> exactly when \<^verbatim>\<open>j.contains(k)\<close>, and then
  \<open>v\<close> is \<^verbatim>\<open>j[k]\<close>. The program reads \<^verbatim>\<open>j[k]\<close> on a constant value only after that test.
\<close>

fun jget :: "json \<Rightarrow> string \<Rightarrow> json option" where
  "jget (JObject m) k = map_of m k"
| "jget _ k = None"

definition contains :: "json \<Rightarrow> string \<Rightarrow> bool" where
  "contains j k \<longleftrightarrow> jget j k \<noteq> None"

text \<open>
  \<^verbatim>\<open>j[k] = v\<close> on a mutable value: null becomes an object first, an object is updated, anything
  else raises type error 305.
\<close>

fun jset :: "json \<Rightarrow> string \<Rightarrow> json \<Rightarrow> exn + json" where
  "jset JNull k v = Inr (JObject [(k, v)])"
| "jset (JObject m) k v = Inr (JObject (smap_set k v m))"
| "jset j k v =
     Inl (JsonTypeError 305 (''cannot use operator[] with a string argument with '' @ type_name j))"

text \<open>
  \<^verbatim>\<open>get<int>()\<close>: numbers and booleans convert, by a cast to the 32-bit \<^verbatim>\<open>int\<close>; every other
  type raises type error 302.
\<close>

fun get_int :: "json \<Rightarrow> exn + int" where
  "get_int (JInt n) = Inr (sint (word_of_int n :: 32 word))"
| "get_int (JFloat text i) = Inr i"
| "get_int (JBool b) = Inr (if b then 1 else 0)"
| "get_int j = Inl (JsonTypeError 302 (''type must be number, but is '' @ type_name j))"

fun get_bool :: "json \<Rightarrow> exn + bool" where
  "get_bool (JBool b) = Inr b"
| "get_bool j = Inl (JsonTypeError 302 (''type must be boolean, but is '' @ type_name j))"

fun get_string :: "json \<Rightarrow> exn + string" where
  "get_string (JString s) = Inr s"
| "get_string j = Inl (JsonTypeError 302 (''type must be string, but is '' @ type_name j))"

subsection \<open>Serialisation\<close>

definition digit_char :: "nat \<Rightarrow> char" where
  "digit_char d = ''0123456789abcdef'' ! (d mod 16)"

function nat_to_string :: "nat \<Rightarrow> string" where
  "nat_to_string n = (if n < 10 then [digit_char n] else nat_to_string (n div 10) @ [digit_char (n mod 10)])"
  by pat_completeness auto
termination
  by (relation "measure (\<lambda>n. n)") auto

definition int_to_string :: "int \<Rightarrow> string" where
  "int_to_string i = (if i < 0 then CHR ''-'' # nat_to_string (nat (- i)) else nat_to_string (nat i))"

definition what :: "exn \<Rightarrow> string" where
  "what e = (case e of
       JsonTypeError n msg \<Rightarrow> ''[json.exception.type_error.'' @ nat_to_string n @ ''] '' @ msg
     | StdException msg \<Rightarrow> msg)"

text \<open>
  The length of the well-formed UTF-8 sequence at the head of a byte list, 0 when there is
  none. The serialiser refuses a string with an ill-formed sequence (type error 316).
\<close>

definition is_cont :: "nat \<Rightarrow> bool" where
  "is_cont b \<longleftrightarrow> 128 \<le> b \<and> b \<le> 191"

definition utf8_len :: "nat list \<Rightarrow> nat" where
  "utf8_len bytes = (case bytes of [] \<Rightarrow> 0 | b0 # bs \<Rightarrow>
     (if b0 < 128 then 1
      else if 194 \<le> b0 \<and> b0 \<le> 223 then
        (case bs of b1 # _ \<Rightarrow> if is_cont b1 then 2 else 0 | _ \<Rightarrow> 0)
      else if 224 \<le> b0 \<and> b0 \<le> 239 then
        (case bs of b1 # b2 # _ \<Rightarrow>
           if (if b0 = 224 then 160 \<le> b1 \<and> b1 \<le> 191
               else if b0 = 237 then 128 \<le> b1 \<and> b1 \<le> 159
               else is_cont b1) \<and> is_cont b2 then 3 else 0
         | _ \<Rightarrow> 0)
      else if 240 \<le> b0 \<and> b0 \<le> 244 then
        (case bs of b1 # b2 # b3 # _ \<Rightarrow>
           if (if b0 = 240 then 144 \<le> b1 \<and> b1 \<le> 191
               else if b0 = 244 then 128 \<le> b1 \<and> b1 \<le> 143
               else is_cont b1) \<and> is_cont b2 \<and> is_cont b3 then 4 else 0
         | _ \<Rightarrow> 0)
      else 0))"

text \<open>One ASCII byte as the serialiser writes it inside a string.\<close>

definition escape_char :: "char \<Rightarrow> string" where
  "escape_char c =
     (let b = (of_char c :: nat) in
      if b = 8 then [CHR 0x5C, CHR ''b'']
      else if b = 9 then [CHR 0x5C, CHR ''t'']
      else if b = 10 then [CHR 0x5C, CHR ''n'']
      else if b = 12 then [CHR 0x5C, CHR ''f'']
      else if b = 13 then [CHR 0x5C, CHR ''r'']
      else if b = 34 then [CHR 0x5C, CHR 0x22]
      else if b = 92 then [CHR 0x5C, CHR 0x5C]
      else if b < 32 then [CHR 0x5C, CHR ''u'', CHR ''0'', CHR ''0'', digit_char (b div 16), digit_char (b mod 16)]
      else [c])"

fun escape_string :: "string \<Rightarrow> exn + string" where
  "escape_string [] = Inr []"
| "escape_string (c # cs) =
     (let n = utf8_len (map of_char (c # cs)) in
      if n = 0 then Inl (JsonTypeError 316 ''invalid UTF-8 byte'')
      else (case escape_string (drop (n - 1) cs) of
              Inl e \<Rightarrow> Inl e
            | Inr r \<Rightarrow> Inr ((if n = 1 then escape_char c else c # take (n - 1) cs) @ r)))"

definition quote :: "string \<Rightarrow> exn + string" where
  "quote s = (case escape_string s of Inl e \<Rightarrow> Inl e | Inr r \<Rightarrow> Inr ([CHR 0x22] @ r @ [CHR 0x22]))"

text \<open>Elements already serialised, joined by commas; the first failure wins.\<close>

fun join_dumped :: "(exn + string) list \<Rightarrow> exn + string" where
  "join_dumped [] = Inr []"
| "join_dumped [x] = x"
| "join_dumped (x # xs) =
     (case x of Inl e \<Rightarrow> Inl e
      | Inr s \<Rightarrow> (case join_dumped xs of Inl e \<Rightarrow> Inl e | Inr r \<Rightarrow> Inr (s @ '','' @ r)))"

text \<open>\<^verbatim>\<open>dump()\<close>: the compact serialisation.\<close>

fun dump :: "json \<Rightarrow> exn + string" where
  "dump JNull = Inr ''null''"
| "dump (JBool b) = Inr (if b then ''true'' else ''false'')"
| "dump (JInt i) = Inr (int_to_string i)"
| "dump (JFloat text i) = Inr text"
| "dump (JString s) = quote s"
| "dump (JArray xs) =
     (case join_dumped (map dump xs) of Inl e \<Rightarrow> Inl e | Inr r \<Rightarrow> Inr (''['' @ r @ '']''))"
| "dump (JObject m) =
     (case join_dumped (map (\<lambda>(k, v). case quote k of Inl e \<Rightarrow> Inl e
                                        | Inr qk \<Rightarrow> (case dump v of Inl e \<Rightarrow> Inl e
                                                     | Inr dv \<Rightarrow> Inr (qk @ '':'' @ dv))) m) of
        Inl e \<Rightarrow> Inl e
      | Inr r \<Rightarrow> Inr (''{'' @ r @ ''}''))"

declare nat_to_string.simps [simp del]

section \<open>The dynamic layer (\<^verbatim>\<open>dynamic_mcp_server.cpp\<close>)\<close>

record TaskParameter =
  param_name :: string
  param_type :: string
  param_required :: bool
  param_description :: string
  param_default_value :: json

record TaskConfig =
  task_name :: string
  task_description :: string
  task_operation_type :: string
  task_config :: json
  task_parameters :: "TaskParameter list"

text \<open>
  The two mappings of a step are \<^verbatim>\<open>std::map<std::string, std::string>\<close>: the lists hold their
  entries in iteration order.
\<close>

record WorkflowStep =
  step_name :: string
  step_task :: string
  step_dependencies :: "string list"
  step_input_mapping :: "(string \<times> string) list"
  step_output_mapping :: "(string \<times> string) list"

record WorkflowConfig =
  workflow_name :: string
  workflow_description :: string
  workflow_parameters :: "TaskParameter list"
  workflow_steps :: "WorkflowStep list"

definition validate_parameter_type :: "string \<Rightarrow> json \<Rightarrow> bool" where
  "validate_parameter_type type_str v =
     (if type_str = ''string'' \<or> type_str = ''str'' then is_string v
      else if type_str = ''integer'' \<or> type_str = ''int'' then is_number_integer v
      else if type_str = ''float'' \<or> type_str = ''double'' \<or> type_str = ''number'' then is_number v
      else if type_str = ''boolean'' \<or> type_str = ''bool'' then is_boolean v
      else if type_str = ''object'' then is_object v
      else if type_str = ''array'' then is_array v
      else True)"

text \<open>\<^verbatim>\<open>dynamic_mcp::create_error_response\<close> and \<^verbatim>\<open>dynamic_mcp::create_success_response\<close>.\<close>

definition create_error_response_dyn :: "string \<Rightarrow> json" where
  "create_error_response_dyn error_message =
     jobject [(''success'', JBool False), (''error'', JString error_message)]"

definition create_success_response_dyn :: "json \<Rightarrow> json" where
  "create_success_response_dyn data =
     (if \<not> is_null data then jobject [(''success'', JBool True), (''data'', data)]
      else jobject [(''success'', JBool True)])"

subsection \<open>Dependency resolution\<close>

record dfs_state =
  visited :: "string set"
  order :: "string list"

definition build_step_map :: "WorkflowStep list \<Rightarrow> (string \<times> WorkflowStep) list" where
  "build_step_map steps = fold (\<lambda>step m. smap_set (step_name step) step m) steps []"

text \<open>
  The recursive lambda \<^verbatim>\<open>visit\<close> of \<^verbatim>\<open>resolve_dependencies\<close>, with the loop over the
  dependencies of the step as \<open>visit_deps\<close>. \<^verbatim>\<open>step_map[step_name]\<close> on a name that is not a
  key yields a step with no dependencies; \<^verbatim>\<open>visit\<close> is only ever called on keys.
\<close>

function visit :: "(string \<times> WorkflowStep) list \<Rightarrow> string \<Rightarrow> dfs_state \<Rightarrow> dfs_state"
  and visit_deps :: "(string \<times> WorkflowStep) list \<Rightarrow> string list \<Rightarrow> dfs_state \<Rightarrow> dfs_state"
where
  "visit step_map nm st =
     (if nm \<in> visited st then st
      else (case map_of step_map nm of
              None \<Rightarrow>
                (let st1 = st\<lparr>visited := insert nm (visited st)\<rparr>
                 in st1\<lparr>order := order st1 @ [nm]\<rparr>)
            | Some step \<Rightarrow>
                (let st2 = visit_deps step_map (step_dependencies step)
                             (st\<lparr>visited := insert nm (visited st)\<rparr>)
                 in st2\<lparr>order := order st2 @ [nm]\<rparr>)))"
| "visit_deps step_map [] st = st"
| "visit_deps step_map (dep # deps) st =
     (if map_of step_map dep \<noteq> None
      then visit_deps step_map deps (visit step_map dep st)
      else visit_deps step_map deps st)"
  by pat_completeness auto
termination
proof (relation "measures
         [(\<lambda>x. case x of Inl (m, n, st) \<Rightarrow> card (fst ` set m - visited st)
                        | Inr (m, ds, st) \<Rightarrow> card (fst ` set m - visited st)),
          (\<lambda>x. case x of Inl (m, n, st) \<Rightarrow> 0
                        | Inr (m, ds, st) \<Rightarrow> Suc (length ds))]", goal_cases)
  case 1
  show ?case by simp
next
  case (2 m n st step)
  have "n \<in> fst ` set m" using 2(2) by (metis map_of_eq_None_iff option.distinct(1))
  then have "card (fst ` set m - insert n (visited st)) < card (fst ` set m - visited st)"
    using 2(1) by (intro psubset_card_mono) auto
  then show ?case by simp
next
  case (3 m d ds st)
  show ?case by simp
next
  case (4 m d ds st)
  have grows:
    "visit_visit_deps_dom (Inl (m1, n1, st1)) \<Longrightarrow> visited st1 \<subseteq> visited (visit m1 n1 st1)"
    "visit_visit_deps_dom (Inr (m2, ds2, st2)) \<Longrightarrow> visited st2 \<subseteq> visited (visit_deps m2 ds2 st2)"
    for m1 n1 st1 m2 ds2 st2
  proof (induction m1 n1 st1 and m2 ds2 st2 rule: visit_visit_deps.pinduct)
    case (1 m n st)
    then show ?case by (auto simp: visit.psimps Let_def split: option.splits)
  next
    case (2 m st)
    then show ?case by (simp add: visit_deps.psimps)
  next
    case (3 m d ds st)
    then show ?case by (auto simp: visit_deps.psimps split: if_splits)
  qed
  have "visited st \<subseteq> visited (visit m d st)"
    using 4(2) by (rule grows(1))
  then have "card (fst ` set m - visited (visit m d st)) \<le> card (fst ` set m - visited st)"
    by (intro card_mono) auto
  then show ?case by auto
next
  case (5 m d ds st)
  show ?case by simp
qed

declare visit.simps [simp del]

definition resolve_dependencies :: "WorkflowStep list \<Rightarrow> string list" where
  "resolve_dependencies steps =
     (let step_map = build_step_map steps in
      order (fold (\<lambda>step st. visit step_map (step_name step) st) steps
               \<lparr>visited = {}, order = []\<rparr>))"

subsection \<open>Placeholder substitution\<close>

text \<open>
  The loop \<^verbatim>\<open>while ((pos = str.find(placeholder, pos)) != npos) { str.replace(pos, n, replacement);
  pos += replacement.length(); }\<close>: occurrences are replaced from left to right and the search
  resumes after the inserted text. The placeholder is never empty: it is \<^verbatim>\<open>"{" + name + "}"\<close>.
\<close>

function replace_all :: "string \<Rightarrow> string \<Rightarrow> string \<Rightarrow> string" where
  "replace_all placeholder replacement [] = []"
| "replace_all placeholder replacement (c # cs) =
     (if placeholder \<noteq> [] \<and> take (length placeholder) (c # cs) = placeholder
      then replacement @ replace_all placeholder replacement (drop (length placeholder) (c # cs))
      else c # replace_all placeholder replacement cs)"
  by pat_completeness auto
termination
  by (relation "measure (\<lambda>(p, r, s). length s)") auto

text \<open>The text a variable's value is substituted as: a string verbatim, anything else serialised.\<close>

definition replacement_of :: "json \<Rightarrow> exn + string" where
  "replacement_of var_value = (if is_string var_value then get_string var_value else dump var_value)"

fun replace_each :: "(string \<times> json) list \<Rightarrow> string \<Rightarrow> exn + string" where
  "replace_each [] str = Inr str"
| "replace_each ((var_name, var_value) # variables) str =
     (case replacement_of var_value of
        Inl e \<Rightarrow> Inl e
      | Inr replacement \<Rightarrow>
          replace_each variables (replace_all (''{'' @ var_name @ ''}'') replacement str))"

definition replace_variables :: "json \<Rightarrow> (string \<times> json) list \<Rightarrow> exn + json" where
  "replace_variables v variables =
     (case v of
        JString str \<Rightarrow> (case replace_each variables str of Inl e \<Rightarrow> Inl e | Inr r \<Rightarrow> Inr (JString r))
      | _ \<Rightarrow> Inr v)"

subsection \<open>Workflow execution\<close>

text \<open>
  A registered task handler is a \<^verbatim>\<open>std::function<json(const json&)>\<close>; \<open>Inl\<close> is the exception
  it throws. A run is observed through the calls it makes: the step, the parameters the
  handler received, and what the handler returned.
\<close>

type_synonym handler = "json \<Rightarrow> exn + json"

record call =
  call_step :: string
  call_params :: json
  call_result :: "exn + json"

datatype loop_result = Completed "(string \<times> json) list" | Returned json | Threw exn

fun apply_input_mapping :: "(string \<times> string) list \<Rightarrow> (string \<times> json) list \<Rightarrow> json \<Rightarrow> exn + json" where
  "apply_input_mapping [] step_results step_params = Inr step_params"
| "apply_input_mapping ((pname, mapping_value) # rest) step_results step_params =
     (case replace_variables (JString mapping_value) step_results of
        Inl e \<Rightarrow> Inl e
      | Inr mapped_value \<Rightarrow>
          (case jset step_params pname mapped_value of
             Inl e \<Rightarrow> Inl e
           | Inr step_params' \<Rightarrow> apply_input_mapping rest step_results step_params'))"

fun store_outputs :: "(string \<times> string) list \<Rightarrow> json \<Rightarrow> (string \<times> json) list \<Rightarrow> (string \<times> json) list" where
  "store_outputs [] result step_results = step_results"
| "store_outputs ((result_key, mapped_name) # rest) result step_results =
     store_outputs rest result
       (case jget result result_key of
          Some v \<Rightarrow> smap_set mapped_name v step_results
        | None \<Rightarrow> step_results)"

text \<open>What a finished step leaves in \<^verbatim>\<open>step_results\<close>: the mapped outputs, then the whole result.\<close>

definition store_results :: "WorkflowStep \<Rightarrow> string \<Rightarrow> json \<Rightarrow> (string \<times> json) list \<Rightarrow> (string \<times> json) list" where
  "store_results step nm result step_results =
     smap_set nm result (store_outputs (step_output_mapping step) result step_results)"

text \<open>
  The failure check after a step: \<open>Inr (Some r)\<close> is the early return of \<open>r\<close>, \<open>Inr None\<close> lets
  the loop go on, \<open>Inl\<close> is the type error of \<^verbatim>\<open>get<bool>()\<close> or of \<^verbatim>\<open>value("error", ...)\<close>.
\<close>

definition check_failure :: "string \<Rightarrow> json \<Rightarrow> (string \<times> json) list \<Rightarrow> exn + json option" where
  "check_failure nm result step_results =
     (case jget result ''success'' of
        None \<Rightarrow> Inr None
      | Some s \<Rightarrow>
          (case get_bool s of
             Inl e \<Rightarrow> Inl e
           | Inr True \<Rightarrow> Inr None
           | Inr False \<Rightarrow>
               (case (case jget result ''error'' of None \<Rightarrow> Inr ''Unknown error''
                      | Some ev \<Rightarrow> get_string ev) of
                  Inl e \<Rightarrow> Inl e
                | Inr err \<Rightarrow>
                    Inr (Some (jobject
                      [(''success'', JBool False),
                       (''failed_step'', JString nm),
                       (''error'', JString err),
                       (''step_results'', JObject step_results)])))))"

fun run_steps :: "(string \<Rightarrow> handler option) \<Rightarrow> WorkflowStep list \<Rightarrow> json \<Rightarrow> string list
                    \<Rightarrow> (string \<times> json) list \<Rightarrow> loop_result \<times> call list" where
  "run_steps task_registry steps params [] step_results = (Completed step_results, [])"
| "run_steps task_registry steps params (nm # rest) step_results =
     (case find (\<lambda>s. step_name s = nm) steps of
        None \<Rightarrow> (Returned (create_error_response_dyn (''Step not found: '' @ nm)), [])
      | Some step \<Rightarrow>
          (case apply_input_mapping (step_input_mapping step) step_results params of
             Inl e \<Rightarrow> (Threw e, [])
           | Inr step_params \<Rightarrow>
               (case task_registry (step_task step) of
                  None \<Rightarrow> (Returned (create_error_response_dyn (''Task not found: '' @ step_task step)), [])
                | Some task \<Rightarrow>
                    (case task step_params of
                       Inl e \<Rightarrow>
                         (Threw e, [\<lparr>call_step = nm, call_params = step_params, call_result = Inl e\<rparr>])
                     | Inr result \<Rightarrow>
                         (let c = \<lparr>call_step = nm, call_params = step_params, call_result = Inr result\<rparr>;
                              step_results' = store_results step nm result step_results
                          in case check_failure nm result step_results' of
                               Inl e \<Rightarrow> (Threw e, [c])
                             | Inr (Some response) \<Rightarrow> (Returned response, [c])
                             | Inr None \<Rightarrow>
                                 (case run_steps task_registry steps params rest step_results' of
                                    (r, calls) \<Rightarrow> (r, c # calls)))))))"

definition execute :: "(string \<Rightarrow> handler option) \<Rightarrow> WorkflowConfig \<Rightarrow> json \<Rightarrow> json \<times> call list" where
  "execute task_registry workflow params =
     (let execution_order = resolve_dependencies (workflow_steps workflow) in
      case run_steps task_registry (workflow_steps workflow) params execution_order [] of
        (Completed step_results, calls) \<Rightarrow>
          (jobject [(''success'', JBool True),
                    (''workflow'', JString (workflow_name workflow)),
                    (''steps_executed'', JInt (int (length execution_order))),
                    (''step_results'', JObject step_results)], calls)
      | (Returned response, calls) \<Rightarrow> (response, calls)
      | (Threw e, calls) \<Rightarrow> (create_error_response_dyn (''Workflow error: '' @ what e), calls))"

subsection \<open>Synthesised task tools\<close>

text \<open>
  An executor is \<^verbatim>\<open>TaskExecutor::execute(task_config, params)\<close>; the executors catch their own
  exceptions and always return a value. The handler below is the lambda that
  \<^verbatim>\<open>create_task_tool\<close> registers.
\<close>

type_synonym executor = "json \<Rightarrow> json \<Rightarrow> json"

datatype resolved = Params json | EarlyReturn json | Raised exn

fun apply_defaults :: "TaskParameter list \<Rightarrow> json \<Rightarrow> resolved" where
  "apply_defaults [] params = Params params"
| "apply_defaults (param # rest) params =
     (if \<not> contains params (param_name param) then
        (if \<not> is_null (param_default_value param) then
           (case jset params (param_name param) (param_default_value param) of
              Inl e \<Rightarrow> Raised e
            | Inr params' \<Rightarrow> apply_defaults rest params')
         else if param_required param then
           EarlyReturn (create_error_response_dyn (''Missing required parameter: '' @ param_name param))
         else apply_defaults rest params)
      else apply_defaults rest params)"

definition task_tool_handler :: "(string \<Rightarrow> executor option) \<Rightarrow> TaskConfig \<Rightarrow> handler" where
  "task_tool_handler executors task arguments =
     (case apply_defaults (task_parameters task) arguments of
        Raised e \<Rightarrow> Inl e
      | EarlyReturn r \<Rightarrow> Inr r
      | Params params \<Rightarrow>
          (case executors (task_operation_type task) of
             None \<Rightarrow> Inr (create_error_response_dyn (''Unknown operation type: '' @ task_operation_type task))
           | Some exec \<Rightarrow> Inr (exec (task_config task) params)))"

section \<open>The protocol engine (\<^verbatim>\<open>mcp_server.cpp\<close>)\<close>

record Tool =
  tool_name :: string
  tool_description :: string
  tool_input_schema :: json
  tool_function :: handler

text \<open>A resource reader takes no argument: it is the string it returns or the exception it throws.\<close>

record Resource =
  resource_uri :: string
  resource_name :: string
  resource_description :: string
  resource_mime_type :: string
  resource_function :: "exn + string"

record Prompt =
  prompt_name :: string
  prompt_description :: string
  prompt_arguments :: json
  prompt_function :: handler

record MCPServer =
  server_name :: string
  server_version :: string
  tools :: "(string \<times> Tool) list"
  resources :: "(string \<times> Resource) list"
  prompts :: "(string \<times> Prompt) list"
  initialized :: bool
  client_info :: json

definition new_server :: "string \<Rightarrow> string \<Rightarrow> MCPServer" where
  "new_server name version =
     \<lparr>server_name = name, server_version = version, tools = [], resources = [], prompts = [],
      initialized = False, client_info = JNull\<rparr>"

definition add_tool :: "string \<Rightarrow> string \<Rightarrow> json \<Rightarrow> handler \<Rightarrow> MCPServer \<Rightarrow> MCPServer" where
  "add_tool name description input_schema func s =
     s\<lparr>tools := smap_set name
          \<lparr>tool_name = name, tool_description = description,
           tool_input_schema = input_schema, tool_function = func\<rparr> (tools s)\<rparr>"

definition add_resource :: "string \<Rightarrow> string \<Rightarrow> string \<Rightarrow> string \<Rightarrow> exn + string \<Rightarrow> MCPServer \<Rightarrow> MCPServer" where
  "add_resource uri name description mime_type func s =
     s\<lparr>resources := smap_set uri
          \<lparr>resource_uri = uri, resource_name = name, resource_description = description,
           resource_mime_type = mime_type, resource_function = func\<rparr> (resources s)\<rparr>"

definition add_prompt :: "string \<Rightarrow> string \<Rightarrow> json \<Rightarrow> handler \<Rightarrow> MCPServer \<Rightarrow> MCPServer" where
  "add_prompt name description arguments func s =
     s\<lparr>prompts := smap_set name
          \<lparr>prompt_name = name, prompt_description = description,
           prompt_arguments = arguments, prompt_function = func\<rparr> (prompts s)\<rparr>"

text \<open>Both response builders take the id as a C++ \<^verbatim>\<open>int\<close>.\<close>

definition create_error_response :: "int \<Rightarrow> int \<Rightarrow> string \<Rightarrow> json" where
  "create_error_response req_id code message =
     jobject [(''jsonrpc'', JString ''2.0''),
              (''id'', JInt req_id),
              (''error'', jobject [(''code'', JInt code), (''message'', JString message)])]"

definition create_success_response :: "int \<Rightarrow> json \<Rightarrow> json" where
  "create_success_response req_id result =
     jobject [(''jsonrpc'', JString ''2.0''), (''id'', JInt req_id), (''result'', result)]"

definition handle_initialize :: "MCPServer \<Rightarrow> json \<Rightarrow> json \<times> MCPServer" where
  "handle_initialize s params =
     (let s1 = s\<lparr>initialized := True\<rparr>;
          s2 = (case jget params ''clientInfo'' of Some ci \<Rightarrow> s1\<lparr>client_info := ci\<rparr> | None \<Rightarrow> s1);
          c0 = [];
          c1 = (if tools s \<noteq> [] then smap_set ''tools'' (JObject []) c0 else c0);
          c2 = (if resources s \<noteq> []
                then smap_set ''resources''
                       (jobject [(''subscribe'', JBool False), (''listChanged'', JBool False)]) c1
                else c1);
          c3 = (if prompts s \<noteq> []
                then smap_set ''prompts'' (jobject [(''listChanged'', JBool False)]) c2
                else c2)
      in (jobject [(''protocolVersion'', JString ''2024-11-05''),
                   (''capabilities'', JObject c3),
                   (''serverInfo'', jobject [(''name'', JString (server_name s)),
                                             (''version'', JString (server_version s))])],
          s2))"

definition handle_tools_list :: "MCPServer \<Rightarrow> json \<Rightarrow> exn + json" where
  "handle_tools_list s params =
     Inr (jobject [(''tools'', JArray (map (\<lambda>(name, tool).
            jobject [(''name'', JString (tool_name tool)),
                     (''description'', JString (tool_description tool)),
                     (''inputSchema'', tool_input_schema tool)]) (tools s)))])"

definition handle_tools_call :: "MCPServer \<Rightarrow> json \<Rightarrow> exn + json" where
  "handle_tools_call s params =
     (case jget params ''name'' of
        None \<Rightarrow> Inl (StdException (''Missing '' @ [CHR 0x27] @ ''name'' @ [CHR 0x27] @ '' parameter''))
      | Some nv \<Rightarrow>
          (case get_string nv of
             Inl e \<Rightarrow> Inl e
           | Inr name \<Rightarrow>
               (case map_of (tools s) name of
                  None \<Rightarrow> Inl (StdException (''Tool not found: '' @ name))
                | Some tool \<Rightarrow>
                    (let arguments = (case jget params ''arguments'' of Some a \<Rightarrow> a | None \<Rightarrow> JObject [])
                     in case (case tool_function tool arguments of
                                Inl e \<Rightarrow> Inl e
                              | Inr result \<Rightarrow>
                                  (case (if is_string result then get_string result else dump result) of
                                     Inl e \<Rightarrow> Inl e
                                   | Inr text \<Rightarrow>
                                       Inr (jobject [(''content'', JArray
                                              [jobject [(''type'', JString ''text''),
                                                        (''text'', JString text)]])]))) of
                          Inl e \<Rightarrow> Inl (StdException (''Tool execution failed: '' @ what e))
                        | Inr r \<Rightarrow> Inr r))))"

definition handle_resources_list :: "MCPServer \<Rightarrow> json \<Rightarrow> exn + json" where
  "handle_resources_list s params =
     Inr (jobject [(''resources'', JArray (map (\<lambda>(uri, resource).
            jobject [(''uri'', JString (resource_uri resource)),
                     (''name'', JString (resource_name resource)),
                     (''description'', JString (resource_description resource)),
                     (''mimeType'', JString (resource_mime_type resource))]) (resources s)))])"

definition handle_resources_read :: "MCPServer \<Rightarrow> json \<Rightarrow> exn + json" where
  "handle_resources_read s params =
     (case jget params ''uri'' of
        None \<Rightarrow> Inl (StdException (''Missing '' @ [CHR 0x27] @ ''uri'' @ [CHR 0x27] @ '' parameter''))
      | Some uv \<Rightarrow>
          (case get_string uv of
             Inl e \<Rightarrow> Inl e
           | Inr uri \<Rightarrow>
               (case map_of (resources s) uri of
                  None \<Rightarrow> Inl (StdException (''Resource not found: '' @ uri))
                | Some resource \<Rightarrow>
                    (case resource_function resource of
                       Inl e \<Rightarrow> Inl (StdException (''Resource read failed: '' @ what e))
                     | Inr content \<Rightarrow>
                         Inr (jobject [(''contents'', JArray
                                [jobject [(''uri'', JString uri),
                                          (''mimeType'', JString (resource_mime_type resource)),
                                          (''text'', JString content)]])])))))"

definition handle_prompts_list :: "MCPServer \<Rightarrow> json \<Rightarrow> exn + json" where
  "handle_prompts_list s params =
     Inr (jobject [(''prompts'', JArray (map (\<lambda>(name, prompt).
            jobject [(''name'', JString (prompt_name prompt)),
                     (''description'', JString (prompt_description prompt)),
                     (''arguments'', prompt_arguments prompt)]) (prompts s)))])"

definition handle_prompts_get :: "MCPServer \<Rightarrow> json \<Rightarrow> exn + json" where
  "handle_prompts_get s params =
     (case jget params ''name'' of
        None \<Rightarrow> Inl (StdException (''Missing '' @ [CHR 0x27] @ ''name'' @ [CHR 0x27] @ '' parameter''))
      | Some nv \<Rightarrow>
          (case get_string nv of
             Inl e \<Rightarrow> Inl e
           | Inr name \<Rightarrow>
               (case map_of (prompts s) name of
                  None \<Rightarrow> Inl (StdException (''Prompt not found: '' @ name))
                | Some prompt \<Rightarrow>
                    (let arguments = (case jget params ''arguments'' of Some a \<Rightarrow> a | None \<Rightarrow> JObject [])
                     in case prompt_function prompt arguments of
                          Inl e \<Rightarrow> Inl (StdException (''Prompt execution failed: '' @ what e))
                        | Inr result \<Rightarrow>
                            Inr (jobject [(''description'', JString (prompt_description prompt)),
                                          (''messages'', result)])))))"

text \<open>\<^verbatim>\<open>int id = message.contains("id") ? message["id"].get<int>() : -1\<close>.\<close>

definition message_id :: "json \<Rightarrow> exn + int" where
  "message_id message = (case jget message ''id'' of Some iv \<Rightarrow> get_int iv | None \<Rightarrow> Inr (- 1))"

text \<open>The chain of comparisons on the method name; \<open>None\<close> is its final \<^verbatim>\<open>else\<close>.\<close>

definition route :: "MCPServer \<Rightarrow> string \<Rightarrow> json \<Rightarrow> (exn + json) option" where
  "route s method params =
     (if method = ''tools/list'' then Some (handle_tools_list s params)
      else if method = ''tools/call'' then Some (handle_tools_call s params)
      else if method = ''resources/list'' then Some (handle_resources_list s params)
      else if method = ''resources/read'' then Some (handle_resources_read s params)
      else if method = ''prompts/list'' then Some (handle_prompts_list s params)
      else if method = ''prompts/get'' then Some (handle_prompts_get s params)
      else None)"

text \<open>The \<^verbatim>\<open>try\<close> block of \<^verbatim>\<open>handle_message\<close>.\<close>

definition handle_message_body :: "MCPServer \<Rightarrow> json \<Rightarrow> exn + (json \<times> MCPServer)" where
  "handle_message_body s message =
     (if jget message ''jsonrpc'' \<noteq> Some (JString ''2.0'') then
        Inr (create_error_response (- 1) (- 32600) ''Invalid JSON-RPC version'', s)
      else (case jget message ''method'' of
          None \<Rightarrow> Inr (create_error_response (- 1) (- 32600) ''Missing method'', s)
        | Some mv \<Rightarrow>
            (case get_string mv of
               Inl e \<Rightarrow> Inl e
             | Inr method \<Rightarrow>
                 (let params = (case jget message ''params'' of Some p \<Rightarrow> p | None \<Rightarrow> JObject [])
                  in case message_id message of
                       Inl e \<Rightarrow> Inl e
                     | Inr req_id \<Rightarrow>
                         if method = ''initialize'' then
                           (case handle_initialize s params of
                              (result, s') \<Rightarrow> Inr (create_success_response req_id result, s'))
                         else if \<not> initialized s \<and> method \<noteq> ''initialize'' then
                           Inr (create_error_response req_id (- 32002) ''Server not initialized'', s)
                         else (case route s method params of
                                 None \<Rightarrow>
                                   Inr (create_error_response req_id (- 32601)
                                          (''Method not found: '' @ method), s)
                               | Some (Inl e) \<Rightarrow> Inl e
                               | Some (Inr result) \<Rightarrow> Inr (create_success_response req_id result, s))))))"

text \<open>
  \<^verbatim>\<open>handle_message\<close> with its two \<^verbatim>\<open>catch\<close> clauses. \<open>Inl\<close> is an exception that leaves the
  function: the second clause reads the id again.
\<close>

definition handle_message :: "MCPServer \<Rightarrow> json \<Rightarrow> exn + (json \<times> MCPServer)" where
  "handle_message s message =
     (case handle_message_body s message of
        Inr r \<Rightarrow> Inr r
      | Inl (JsonTypeError n msg) \<Rightarrow>
          Inr (create_error_response (- 1) (- 32700)
                 (''Parse error: '' @ what (JsonTypeError n msg)), s)
      | Inl (StdException msg) \<Rightarrow>
          (case message_id message of
             Inl e \<Rightarrow> Inl e
           | Inr req_id \<Rightarrow>
               Inr (create_error_response req_id (- 32603)
                      (''Internal error: '' @ what (StdException msg)), s)))"

text \<open>
  The loop of \<^verbatim>\<open>run_stdio_loop\<close> over the non-empty input lines, each given as what
  \<^verbatim>\<open>json::parse\<close> makes of it (\<open>None\<close> when it throws), with the lines written to standard
  output. A \<^verbatim>\<open>json::exception\<close> anywhere in the body writes the fixed parse error; any other
  exception writes nothing.
\<close>

definition parse_error_line :: "string list" where
  "parse_error_line =
     (case dump (create_error_response (- 1) (- 32700) ''Parse error'') of
        Inr line \<Rightarrow> [line] | Inl e \<Rightarrow> [])"

fun run_stdio_loop :: "MCPServer \<Rightarrow> json option list \<Rightarrow> string list \<times> MCPServer" where
  "run_stdio_loop s [] = ([], s)"
| "run_stdio_loop s (None # inputs) =
     (case run_stdio_loop s inputs of (out, s') \<Rightarrow> (parse_error_line @ out, s'))"
| "run_stdio_loop s (Some request # inputs) =
     (case handle_message s request of
        Inl (JsonTypeError n msg) \<Rightarrow>
          (case run_stdio_loop s inputs of (out, s') \<Rightarrow> (parse_error_line @ out, s'))
      | Inl (StdException msg) \<Rightarrow> run_stdio_loop s inputs
      | Inr (response, s1) \<Rightarrow>
          (case run_stdio_loop s1 inputs of
             (out, s') \<Rightarrow>
               ((case dump response of Inr line \<Rightarrow> [line] | Inl e \<Rightarrow> parse_error_line) @ out, s')))"

section \<open>Notions used to state the properties\<close>

text \<open>
  \<open>depends_on steps\<close> relates a step name to each name in the dependency list of a step of
  that name; \<open>executes_before ord b a\<close> says that \<open>b\<close> stands at an earlier position of the
  execution order than \<open>a\<close>.
\<close>

definition depends_on :: "WorkflowStep list \<Rightarrow> (string \<times> string) set" where
  "depends_on steps = {(a, d). \<exists>s \<in> set steps. step_name s = a \<and> d \<in> set (step_dependencies s)}"

definition executes_before :: "string list \<Rightarrow> string \<Rightarrow> string \<Rightarrow> bool" where
  "executes_before ord b a \<longleftrightarrow> (\<exists>j < length ord. \<exists>i < j. ord ! i = b \<and> ord ! j = a)"

text \<open>The edges the traversal follows, and the invariants of its state.\<close>

definition dep_edges :: "(string \<times> WorkflowStep) list \<Rightarrow> (string \<times> string) set" where
  "dep_edges m = {(a, d). \<exists>step. map_of m a = Some step \<and> d \<in> set (step_dependencies step)
                          \<and> map_of m d \<noteq> None}"

definition dfs_inv :: "dfs_state \<Rightarrow> bool" where
  "dfs_inv st \<longleftrightarrow> distinct (order st) \<and> set (order st) \<subseteq> visited st"

definition on_stack :: "dfs_state \<Rightarrow> string set" where
  "on_stack st = visited st - set (order st)"

definition deps_first :: "(string \<times> WorkflowStep) list \<Rightarrow> dfs_state \<Rightarrow> bool" where
  "deps_first m st \<longleftrightarrow>
     (\<forall>n \<in> set (order st). \<forall>d. (n, d) \<in> dep_edges m \<longrightarrow> executes_before (order st) d n)"

text \<open>
  The contents of \<^verbatim>\<open>step_results\<close> after a sequence of calls: each call that returned a
  result stores the outputs mapped by its step, then the whole result under the step's name.
\<close>

fun env_after :: "WorkflowStep list \<Rightarrow> call list \<Rightarrow> (string \<times> json) list \<Rightarrow> (string \<times> json) list" where
  "env_after steps [] step_results = step_results"
| "env_after steps (c # cs) step_results =
     env_after steps cs
       (case (find (\<lambda>s. step_name s = call_step c) steps, call_result c) of
          (Some step, Inr result) \<Rightarrow> store_results step (call_step c) result step_results
        | _ \<Rightarrow> step_results)"

text \<open>
  The parameters of a step in the words of the specification: the variable environment,
  which starts as the workflow's input arguments and receives what the earlier steps bind,
  merged with the entries of the input mapping substituted against that environment.
\<close>

definition spec_env :: "WorkflowStep list \<Rightarrow> json \<Rightarrow> call list \<Rightarrow> (string \<times> json) list" where
  "spec_env steps params earlier =
     env_after steps earlier (case params of JObject m \<Rightarrow> m | _ \<Rightarrow> [])"

definition spec_step_params :: "WorkflowStep list \<Rightarrow> json \<Rightarrow> call list \<Rightarrow> WorkflowStep \<Rightarrow> exn + json" where
  "spec_step_params steps params earlier step =
     (let env = spec_env steps params earlier
      in apply_input_mapping (step_input_mapping step) env (JObject env))"

text \<open>
  A name is brace-free when it contains neither \<open>{\<close> nor \<open>}\<close>. A variable map is substitutable
  when its names are brace-free and each value has a replacement text (a value that is no
  string must serialise).
\<close>

definition brace_free :: "string \<Rightarrow> bool" where
  "brace_free s \<longleftrightarrow> CHR ''{'' \<notin> set s \<and> CHR ''}'' \<notin> set s"

definition substitutable :: "(string \<times> json) list \<Rightarrow> bool" where
  "substitutable variables \<longleftrightarrow>
     list_all (\<lambda>(k, v). brace_free k \<and> (case replacement_of v of Inr r \<Rightarrow> True | Inl e \<Rightarrow> False))
       variables"

text \<open>What is read off a response of \<open>handle_message\<close>.\<close>

definition response_id :: "exn + (json \<times> MCPServer) \<Rightarrow> json option" where
  "response_id r = (case r of Inr (response, s) \<Rightarrow> jget response ''id'' | Inl e \<Rightarrow> None)"

definition error_code :: "exn + (json \<times> MCPServer) \<Rightarrow> json option" where
  "error_code r = (case r of
       Inr (response, s) \<Rightarrow> (case jget response ''error'' of Some e \<Rightarrow> jget e ''code'' | None \<Rightarrow> None)
     | Inl e \<Rightarrow> None)"

section \<open>Example servers, requests and workflows\<close>

definition demo_server :: MCPServer where
  "demo_server = add_tool ''add'' ''Add two numbers'' (JObject []) (\<lambda>arguments. Inr (JInt 8))
                   (new_server ''demo'' ''1.0.0'')"

definition demo_ready :: MCPServer where
  "demo_ready = snd (handle_initialize demo_server (JObject []))"

definition request :: "json \<Rightarrow> string \<Rightarrow> json \<Rightarrow> json" where
  "request req_id method params =
     jobject [(''jsonrpc'', JString ''2.0''), (''id'', req_id), (''method'', JString method),
              (''params'', params)]"

definition notification :: "string \<Rightarrow> json" where
  "notification method = jobject [(''jsonrpc'', JString ''2.0''), (''method'', JString method)]"

definition demo_steps :: "WorkflowStep list" where
  "demo_steps =
     [\<lparr>step_name = ''s2'', step_task = ''echo'', step_dependencies = [''s1''],
       step_input_mapping = [(''json_string'', ''{s1_out}'')], step_output_mapping = []\<rparr>,
      \<lparr>step_name = ''s1'', step_task = ''echo'', step_dependencies = [],
       step_input_mapping = [], step_output_mapping = [(''data'', ''s1_out'')]\<rparr>]"

text \<open>
  Two task handlers: one that succeeds with the data \<open>"hello"\<close>, and one that reports failure
  the way the terminal executor does for a non-zero exit status, without an \<open>error\<close> field.
\<close>

definition hello_handler :: handler where
  "hello_handler params = Inr (create_success_response_dyn (JString ''hello''))"

definition failing_handler :: handler where
  "failing_handler params = Inr (jobject [(''success'', JBool False), (''returncode'', JInt 1)])"

definition demo_registry :: "string \<Rightarrow> handler option" where
  "demo_registry t = (if t = ''echo'' then Some hello_handler
                      else if t = ''fail'' then Some failing_handler else None)"

definition demo_workflow :: WorkflowConfig where
  "demo_workflow = \<lparr>workflow_name = ''wf'', workflow_description = ''two steps'',
                     workflow_parameters = [], workflow_steps = demo_steps\<rparr>"

definition failing_workflow :: WorkflowConfig where
  "failing_workflow = \<lparr>workflow_name = ''wf2'', workflow_description = ''fails second'',
     workflow_parameters = [],
     workflow_steps =
       [\<lparr>step_name = ''s1'', step_task = ''echo'', step_dependencies = [],
         step_input_mapping = [], step_output_mapping = [(''data'', ''s1_out'')]\<rparr>,
        \<lparr>step_name = ''s2'', step_task = ''fail'', step_dependencies = [''s1''],
         step_input_mapping = [], step_output_mapping = []\<rparr>,
        \<lparr>step_name = ''s3'', step_task = ''echo'', step_dependencies = [''s2''],
         step_input_mapping = [], step_output_mapping = []\<rparr>]\<rparr>"

definition demo_params :: json where
  "demo_params = JObject [(''q'', JInt 5)]"

text \<open>An executor that returns its parameters, and a task with one required integer parameter.\<close>

definition echo_executor :: executor where
  "echo_executor cfg params = create_success_response_dyn params"

definition demo_executors :: "string \<Rightarrow> executor option" where
  "demo_executors operation_type =
     (if operation_type = ''data_processing'' then Some echo_executor else None)"

definition counting_task :: TaskConfig where
  "counting_task =
     \<lparr>task_name = ''repeat'', task_description = ''Repeat a message'',
      task_operation_type = ''data_processing'', task_config = JObject [],
      task_parameters =
        [\<lparr>param_name = ''count'', param_type = ''integer'', param_required = True,
          param_description = ''How many times'', param_default_value = JNull\<rparr>]\<rparr>"

section \<open>Properties\<close>

subsection \<open>Sorted maps and JSON objects\<close>

lemma map_of_smap_set: "map_of (smap_set k v m) = (map_of m)(k \<mapsto> v)"
  by (induction m) (auto simp: fun_eq_iff)

lemma keys_smap_set: "fst ` set (smap_set k v m) = insert k (fst ` set m)"
  by (induction m) force+

lemma jget_jobject: "jget (jobject kvs) k = map_of kvs k"
  unfolding jobject_def by (induction kvs) (auto simp: map_of_smap_set)

lemma jget_jset:
  "jset j k v = Inr j' \<Longrightarrow> jget j' k' = (if k' = k then Some v else jget j k')"
  by (cases j) (auto simp: map_of_smap_set)

subsection \<open>Dependency resolution\<close>

lemma fold_smap_set_notin:
  "k \<notin> step_name ` set steps \<Longrightarrow>
   map_of (fold (\<lambda>step m. smap_set (step_name step) step m) steps m0) k = map_of m0 k"
  by (induction steps arbitrary: m0) (auto simp: map_of_smap_set)

lemma fold_smap_set_keys:
  "fst ` set (fold (\<lambda>step m. smap_set (step_name step) step m) steps m0) =
   fst ` set m0 \<union> step_name ` set steps"
  by (induction steps arbitrary: m0) (auto simp: keys_smap_set)

lemma fold_smap_set_distinct:
  "distinct (map step_name steps) \<Longrightarrow> s \<in> set steps \<Longrightarrow>
   map_of (fold (\<lambda>step m. smap_set (step_name step) step m) steps m0) (step_name s) = Some s"
proof (induction steps arbitrary: m0)
  case Nil
  then show ?case by simp
next
  case (Cons x xs)
  show ?case
  proof (cases "s = x")
    case True
    with Cons.prems have "step_name x \<notin> step_name ` set xs" by simp
    then show ?thesis using True by (simp add: fold_smap_set_notin map_of_smap_set)
  next
    case False
    with Cons show ?thesis by auto
  qed
qed

lemma dom_build_step_map: "dom (map_of (build_step_map steps)) = step_name ` set steps"
  by (simp add: build_step_map_def dom_map_of_conv_image_fst fold_smap_set_keys)

lemma build_step_map_lookup:
  "distinct (map step_name steps) \<Longrightarrow> s \<in> set steps \<Longrightarrow>
   map_of (build_step_map steps) (step_name s) = Some s"
  by (simp add: build_step_map_def fold_smap_set_distinct)

text \<open>
  A visit keeps the order free of repetitions, leaves the set of steps that are marked but
  not yet emitted as it found it, and marks nothing but keys of the step map and its argument.
\<close>

lemma visit_inv:
  "dfs_inv st \<Longrightarrow>
     dfs_inv (visit m n st) \<and> on_stack (visit m n st) = on_stack st \<and> n \<in> visited (visit m n st)
     \<and> visited st \<subseteq> visited (visit m n st)
     \<and> visited (visit m n st) \<subseteq> visited st \<union> insert n (dom (map_of m))
     \<and> (\<exists>ys. order (visit m n st) = order st @ ys)"
  "dfs_inv st \<Longrightarrow>
     dfs_inv (visit_deps m ds st) \<and> on_stack (visit_deps m ds st) = on_stack st
     \<and> (\<forall>d \<in> set ds. map_of m d \<noteq> None \<longrightarrow> d \<in> visited (visit_deps m ds st))
     \<and> visited st \<subseteq> visited (visit_deps m ds st)
     \<and> visited (visit_deps m ds st) \<subseteq> visited st \<union> dom (map_of m)
     \<and> (\<exists>ys. order (visit_deps m ds st) = order st @ ys)"
proof (induction m n st and m ds st rule: visit_visit_deps.induct)
  case (1 m n st)
  show ?case
  proof (cases "n \<in> visited st")
    case True
    then show ?thesis using 1(2) by (auto simp: visit.simps[of m n st])
  next
    case nv: False
    show ?thesis
    proof (cases "map_of m n")
      case None
      then show ?thesis using nv 1(2)
        by (auto simp: visit.simps[of m n st] dfs_inv_def on_stack_def Let_def)
    next
      case (Some step)
      let ?marked = "st\<lparr>visited := insert n (visited st)\<rparr>"
      let ?after = "visit_deps m (step_dependencies step) ?marked"
      have inv1: "dfs_inv ?marked" using 1(2) by (auto simp: dfs_inv_def)
      note ih = 1(1)[OF nv Some inv1]
      have n_after: "n \<in> visited ?after" "n \<notin> set (order ?after)"
        using ih nv 1(2) by (auto simp: on_stack_def dfs_inv_def)
      have res: "visit m n st = ?after\<lparr>order := order ?after @ [n]\<rparr>"
        using nv Some by (simp add: visit.simps[of m n st] Let_def)
      have "on_stack ?after = insert n (on_stack st)"
        using ih nv 1(2) by (auto simp: on_stack_def dfs_inv_def)
      then have "on_stack (visit m n st) = on_stack st"
        using nv n_after unfolding res by (auto simp: on_stack_def)
      moreover have "dfs_inv (visit m n st)"
        using ih n_after unfolding res by (auto simp: dfs_inv_def)
      moreover have "n \<in> visited (visit m n st)" using n_after unfolding res by simp
      moreover have "visited (visit m n st) \<subseteq> visited st \<union> insert n (dom (map_of m))"
        using ih unfolding res by auto
      moreover have "\<exists>ys. order (visit m n st) = order st @ ys"
        using ih unfolding res by auto
      moreover have "visited st \<subseteq> visited (visit m n st)"
        using ih unfolding res by auto
      ultimately show ?thesis by blast
    qed
  qed
next
  case (2 m st)
  then show ?case by simp
next
  case (3 m d ds st)
  show ?case
  proof (cases "map_of m d \<noteq> None")
    case True
    note ih1 = 3(1)[OF True 3(4)]
    then have inv': "dfs_inv (visit m d st)" by blast
    note ih2 = 3(2)[OF True inv']
    have eq: "visit_deps m (d # ds) st = visit_deps m ds (visit m d st)" using True by simp
    have "visited (visit m d st) \<subseteq> visited st \<union> dom (map_of m)" using ih1 True by auto
    moreover have "visited st \<subseteq> visited (visit m d st)"
      using ih1 by blast
    ultimately show ?thesis unfolding eq using ih1 ih2 by (auto 4 3)
  next
    case False
    note ih = 3(3)[OF False 3(4)]
    have eq: "visit_deps m (d # ds) st = visit_deps m ds st" using False by simp
    show ?thesis unfolding eq using ih False by auto
  qed
qed

lemma fold_visit_inv:
  "dfs_inv st \<Longrightarrow> on_stack st = {} \<Longrightarrow>
   dfs_inv (fold (\<lambda>step st. visit m (step_name step) st) steps st)
   \<and> on_stack (fold (\<lambda>step st. visit m (step_name step) st) steps st) = {}
   \<and> step_name ` set steps \<subseteq> visited (fold (\<lambda>step st. visit m (step_name step) st) steps st)
   \<and> visited st \<subseteq> visited (fold (\<lambda>step st. visit m (step_name step) st) steps st)
   \<and> visited (fold (\<lambda>step st. visit m (step_name step) st) steps st)
        \<subseteq> visited st \<union> step_name ` set steps \<union> dom (map_of m)"
proof (induction steps arbitrary: st)
  case Nil
  then show ?case by simp
next
  case (Cons x xs)
  note v = visit_inv(1)[OF Cons.prems(1), of m "step_name x"]
  have a: "dfs_inv (visit m (step_name x) st)" and b: "on_stack (visit m (step_name x) st) = {}"
    using v Cons.prems(2) by auto
  note ih = Cons.IH[OF a b]
  show ?case using ih v by (simp; blast)
qed

lemma resolve_order_set:
  "distinct (resolve_dependencies steps) \<and> set (resolve_dependencies steps) = step_name ` set steps"
proof -
  let ?m = "build_step_map steps"
  let ?init = "\<lparr>visited = {}, order = []\<rparr>"
  let ?fin = "fold (\<lambda>step st. visit ?m (step_name step) st) steps ?init"
  have i0: "dfs_inv ?init" "on_stack ?init = {}" by (simp_all add: dfs_inv_def on_stack_def)
  note f = fold_visit_inv[OF i0, of ?m steps]
  have "set (order ?fin) = visited ?fin" using f by (auto simp: dfs_inv_def on_stack_def)
  moreover have "visited ?fin = step_name ` set steps"
    using f by (auto simp: dom_build_step_map)
  moreover have "distinct (order ?fin)" using f by (simp add: dfs_inv_def)
  ultimately show ?thesis by (simp add: resolve_dependencies_def Let_def)
qed

text \<open>
  C10. \<open>visit\<close> and \<open>visit_deps\<close> are total functions: their termination is proved for every
  step map and every state, whatever the dependency lists contain (cycles, names of no
  step), because each call that goes on marks a step not marked before. The order returned
  for a list of steps has no repetition and holds exactly the names of the declared steps.
\<close>

theorem resolve_dependencies_each_step_once:
  "distinct (resolve_dependencies steps)
   \<and> set (resolve_dependencies steps) = set (map step_name steps)
   \<and> length (resolve_dependencies steps) = card (set (map step_name steps))"
  using resolve_order_set[of steps] distinct_card[of "resolve_dependencies steps"] by simp

lemma executes_before_append: "executes_before xs b a \<Longrightarrow> executes_before (xs @ ys) b a"
  unfolding executes_before_def
  by (metis (no_types, lifting) length_append less_trans nth_append trans_less_add1)

lemma executes_before_snoc: "b \<in> set xs \<Longrightarrow> executes_before (xs @ [a]) b a"
  unfolding executes_before_def
  by (metis in_set_conv_nth length_append_singleton lessI nth_append nth_append_length)

lemma executes_before_trans:
  "distinct ord \<Longrightarrow> executes_before ord c b \<Longrightarrow> executes_before ord b a \<Longrightarrow> executes_before ord c a"
  unfolding executes_before_def
  by (metis less_trans nth_eq_iff_index_eq)

text \<open>
  In an acyclic graph a step that is marked but not emitted cannot be reached again, so
  when a step is emitted all its dependencies have been.
\<close>

lemma visit_deps_first:
  assumes ac: "acyclic (dep_edges m)"
  shows
  "dfs_inv st \<Longrightarrow> deps_first m st \<Longrightarrow> (\<forall>g \<in> on_stack st. (g, n) \<in> (dep_edges m)\<^sup>+)
     \<Longrightarrow> map_of m n \<noteq> None
     \<Longrightarrow> deps_first m (visit m n st) \<and> n \<in> set (order (visit m n st))"
  "dfs_inv st \<Longrightarrow> deps_first m st
     \<Longrightarrow> (\<forall>g \<in> on_stack st. \<forall>d \<in> set ds. map_of m d \<noteq> None \<longrightarrow> (g, d) \<in> (dep_edges m)\<^sup>+)
     \<Longrightarrow> deps_first m (visit_deps m ds st)
         \<and> (\<forall>d \<in> set ds. map_of m d \<noteq> None \<longrightarrow> d \<in> set (order (visit_deps m ds st)))"
  using ac
proof (induction m n st and m ds st rule: visit_visit_deps.induct)
  case (1 m n st)
  note inv = \<open>dfs_inv st\<close> and df = \<open>deps_first m st\<close> and ac = \<open>acyclic (dep_edges m)\<close>
  have n_not_stack: "n \<notin> on_stack st"
    using 1(4) ac by (auto simp: acyclic_def)
  show ?case
  proof (cases "n \<in> visited st")
    case True
    then have "n \<in> set (order st)" using n_not_stack by (simp add: on_stack_def)
    then show ?thesis using True df by (simp add: visit.simps[of m n st])
  next
    case nv: False
    from \<open>map_of m n \<noteq> None\<close> obtain step where Some: "map_of m n = Some step" by blast
    let ?marked = "st\<lparr>visited := insert n (visited st)\<rparr>"
    let ?after = "visit_deps m (step_dependencies step) ?marked"
    have inv1: "dfs_inv ?marked" using inv by (auto simp: dfs_inv_def)
    have df1: "deps_first m ?marked" using df by (simp add: deps_first_def)
    have stack1: "on_stack ?marked = insert n (on_stack st)"
      using nv inv by (auto simp: on_stack_def dfs_inv_def)
    have edge: "\<And>d. d \<in> set (step_dependencies step) \<Longrightarrow> map_of m d \<noteq> None \<Longrightarrow> (n, d) \<in> dep_edges m"
      using Some by (auto simp: dep_edges_def)
    have pre: "\<forall>g \<in> on_stack ?marked. \<forall>d \<in> set (step_dependencies step).
                 map_of m d \<noteq> None \<longrightarrow> (g, d) \<in> (dep_edges m)\<^sup>+"
      unfolding stack1 using edge 1(4) by (auto intro: trancl_into_trancl)
    note ih = 1(1)[OF nv Some inv1 df1 pre ac]
    note vi = visit_inv(2)[OF inv1, of m "step_dependencies step"]
    have n2: "n \<notin> set (order ?after)"
      using vi stack1 by (auto simp: on_stack_def)
    have res: "visit m n st = ?after\<lparr>order := order ?after @ [n]\<rparr>"
      using nv Some by (simp add: visit.simps[of m n st] Let_def)
    have "deps_first m (visit m n st)"
      unfolding res deps_first_def
    proof (intro ballI allI impI)
      fix x d
      assume x: "x \<in> set (order (?after\<lparr>order := order ?after @ [n]\<rparr>))" and e: "(x, d) \<in> dep_edges m"
      show "executes_before (order (?after\<lparr>order := order ?after @ [n]\<rparr>)) d x"
      proof (cases "x = n")
        case True
        from e True Some have "d \<in> set (step_dependencies step)" "map_of m d \<noteq> None"
          by (auto simp: dep_edges_def)
        then have "d \<in> set (order ?after)" using ih by blast
        then show ?thesis using True by (simp add: executes_before_snoc)
      next
        case False
        then have "x \<in> set (order ?after)" using x by simp
        then have "executes_before (order ?after) d x" using ih e by (auto simp: deps_first_def)
        then show ?thesis by (simp add: executes_before_append)
      qed
    qed
    then show ?thesis unfolding res by simp
  qed
next
  case (2 m st)
  then show ?case by simp
next
  case (3 m d ds st)
  note inv = \<open>dfs_inv st\<close> and df = \<open>deps_first m st\<close> and ac = \<open>acyclic (dep_edges m)\<close>
  show ?case
  proof (cases "map_of m d \<noteq> None")
    case True
    have p1: "\<forall>g \<in> on_stack st. (g, d) \<in> (dep_edges m)\<^sup>+" using 3(6) True by simp
    note ih1 = 3(1)[OF True inv df p1 True ac]
    note vi = visit_inv(1)[OF inv, of m d]
    have inv': "dfs_inv (visit m d st)" and stack': "on_stack (visit m d st) = on_stack st"
      using vi by auto
    have p2: "\<forall>g \<in> on_stack (visit m d st). \<forall>d' \<in> set ds. map_of m d' \<noteq> None \<longrightarrow> (g, d') \<in> (dep_edges m)\<^sup>+"
      unfolding stack' using 3(6) by simp
    have df': "deps_first m (visit m d st)" using ih1 by simp
    note ih2 = 3(2)[OF True inv' df' p2 ac]
    note vi2 = visit_inv(2)[OF inv', of m ds]
    have eq: "visit_deps m (d # ds) st = visit_deps m ds (visit m d st)" using True by simp
    have "d \<in> set (order (visit_deps m ds (visit m d st)))"
      using ih1 vi2 by auto
    then show ?thesis unfolding eq using ih2 by simp
  next
    case False
    have p: "\<forall>g \<in> on_stack st. \<forall>d' \<in> set ds. map_of m d' \<noteq> None \<longrightarrow> (g, d') \<in> (dep_edges m)\<^sup>+"
      using 3(6) by simp
    note ih = 3(3)[OF False inv df p ac]
    have eq: "visit_deps m (d # ds) st = visit_deps m ds st" using False by simp
    show ?thesis unfolding eq using ih False by simp
  qed
qed

lemma fold_visit_deps_first:
  assumes ac: "acyclic (dep_edges m)"
  shows "dfs_inv st \<Longrightarrow> on_stack st = {} \<Longrightarrow> deps_first m st
    \<Longrightarrow> \<forall>s \<in> set steps. map_of m (step_name s) \<noteq> None
    \<Longrightarrow> deps_first m (fold (\<lambda>step st. visit m (step_name step) st) steps st)"
proof (induction steps arbitrary: st)
  case Nil
  then show ?case by simp
next
  case (Cons x xs)
  note v = visit_inv(1)[OF Cons.prems(1), of m "step_name x"]
  have a: "dfs_inv (visit m (step_name x) st)" and b: "on_stack (visit m (step_name x) st) = {}"
    using v Cons.prems(2) by auto
  have c: "deps_first m (visit m (step_name x) st)"
    using visit_deps_first(1)[OF ac Cons.prems(1) Cons.prems(3), of "step_name x"] Cons.prems(2,4)
    by simp
  show ?case using Cons.IH[OF a b c] Cons.prems(4) by simp
qed

text \<open>
  C3. Let the step names of a workflow be distinct, let every dependency entry name a step
  of the workflow, and let the dependency graph have no cycle. If step \<open>a\<close> depends on step
  \<open>b\<close>, directly or through other steps, then \<open>b\<close> stands strictly before \<open>a\<close> in the execution
  order that \<open>resolve_dependencies\<close> returns.
\<close>

theorem resolve_dependencies_topological:
  assumes names: "distinct (map step_name steps)"
    and closed: "\<forall>s \<in> set steps. set (step_dependencies s) \<subseteq> step_name ` set steps"
    and dag: "acyclic (depends_on steps)"
    and dep: "(a, b) \<in> (depends_on steps)\<^sup>+"
  shows "executes_before (resolve_dependencies steps) b a"
proof -
  let ?m = "build_step_map steps"
  let ?init = "\<lparr>visited = {}, order = []\<rparr>"
  let ?fin = "fold (\<lambda>step st. visit ?m (step_name step) st) steps ?init"
  have look: "\<And>s. s \<in> set steps \<Longrightarrow> map_of ?m (step_name s) = Some s"
    using names by (rule build_step_map_lookup)
  have keys: "\<And>k. (map_of ?m k \<noteq> None) = (k \<in> step_name ` set steps)"
    using dom_build_step_map[of steps] by (auto simp: dom_def)
  have edges: "dep_edges ?m = depends_on steps"
  proof (rule set_eqI, clarify)
    fix x d
    show "((x, d) \<in> dep_edges ?m) = ((x, d) \<in> depends_on steps)"
    proof
      assume "(x, d) \<in> dep_edges ?m"
      then obtain step where st: "map_of ?m x = Some step" "d \<in> set (step_dependencies step)"
        by (auto simp: dep_edges_def)
      then have "x \<in> step_name ` set steps" using keys[of x] by simp
      then obtain s where "s \<in> set steps" "step_name s = x" by auto
      then have "step = s" using look[of s] st(1) by simp
      then show "(x, d) \<in> depends_on steps"
        using st(2) \<open>s \<in> set steps\<close> \<open>step_name s = x\<close> by (auto simp: depends_on_def)
    next
      assume "(x, d) \<in> depends_on steps"
      then obtain s where s: "s \<in> set steps" "step_name s = x" "d \<in> set (step_dependencies s)"
        by (auto simp: depends_on_def)
      then have "d \<in> step_name ` set steps" using closed by auto
      then have "map_of ?m d \<noteq> None" using keys[of d] by simp
      then show "(x, d) \<in> dep_edges ?m"
        using look[OF s(1)] s by (auto simp: dep_edges_def)
    qed
  qed
  have ac: "acyclic (dep_edges ?m)" using dag edges by simp
  have i0: "dfs_inv ?init" "on_stack ?init = {}" "deps_first ?m ?init"
    by (simp_all add: dfs_inv_def on_stack_def deps_first_def)
  have all: "\<forall>s \<in> set steps. map_of ?m (step_name s) \<noteq> None" using look by simp
  have df: "deps_first ?m ?fin" using fold_visit_deps_first[OF ac i0 all] .
  have ord: "resolve_dependencies steps = order ?fin"
    by (simp add: resolve_dependencies_def Let_def)
  have dist: "distinct (order ?fin)" and mem: "set (order ?fin) = step_name ` set steps"
    using resolve_order_set[of steps] unfolding ord by auto
  have one: "\<And>x d. (x, d) \<in> depends_on steps \<Longrightarrow> executes_before (order ?fin) d x"
  proof -
    fix x d assume e: "(x, d) \<in> depends_on steps"
    then have "x \<in> set (order ?fin)" unfolding mem by (auto simp: depends_on_def)
    then show "executes_before (order ?fin) d x"
      using df e edges by (auto simp: deps_first_def)
  qed
  from dep have "executes_before (order ?fin) b a"
  proof (induction rule: trancl_induct)
    case (base y)
    then show ?case by (rule one)
  next
    case (step y z)
    from one[OF step(2)] step(3) dist show ?case
      by (blast intro: executes_before_trans)
  qed
  then show ?thesis unfolding ord .
qed

lemma depends_on_code:
  "depends_on steps = set (concat (map (\<lambda>s. map (\<lambda>d. (step_name s, d)) (step_dependencies s)) steps))"
  by (auto simp: depends_on_def)

lemma demo_order: "resolve_dependencies demo_steps = [''s1'', ''s2'']"
  by (simp add: resolve_dependencies_def build_step_map_def demo_steps_def visit.simps)

theorem resolve_dependencies_topological_witness:
  "distinct (map step_name demo_steps)
   \<and> acyclic (depends_on demo_steps)
   \<and> (''s2'', ''s1'') \<in> (depends_on demo_steps)\<^sup>+
   \<and> resolve_dependencies demo_steps = [''s1'', ''s2'']
   \<and> executes_before (resolve_dependencies demo_steps) ''s1'' ''s2''"
proof -
  have d: "depends_on demo_steps = {(''s2'', ''s1'')}"
    by (simp add: depends_on_code demo_steps_def)
  have h1: "distinct (map step_name demo_steps)" by (simp add: demo_steps_def)
  have h2: "\<forall>s \<in> set demo_steps. set (step_dependencies s) \<subseteq> step_name ` set demo_steps"
    by (simp add: demo_steps_def)
  have e: "acyclic ({} :: (string \<times> string) set)" by (simp add: acyclic_def)
  have h3: "acyclic (depends_on demo_steps)" unfolding d using e by (simp add: acyclic_insert)
  have h4: "(''s2'', ''s1'') \<in> (depends_on demo_steps)\<^sup>+" unfolding d by (rule r_into_trancl) simp
  show ?thesis
    using resolve_dependencies_topological[OF h1 h2 h3 h4] h1 h2 h3 h4 demo_order by simp
qed

subsection \<open>The message handler\<close>

lemma get_int_in_range:
  "- 2147483648 \<le> x \<Longrightarrow> x < 2147483648 \<Longrightarrow> get_int (JInt x) = Inr x"
  by (simp add: sint_sbintrunc' signed_take_bit_int_eq_self)

lemma response_ids:
  "jget (create_error_response n code msg) ''id'' = Some (JInt n)"
  "jget (create_success_response n result) ''id'' = Some (JInt n)"
  by (simp_all add: create_error_response_def create_success_response_def jget_jobject)

lemma error_code_response:
  "error_code (Inr (create_error_response n code msg, s)) = Some (JInt code)"
  by (simp add: error_code_def create_error_response_def jget_jobject)

text \<open>The only type error a routed handler raises is that of a name or uri that is no string.\<close>

lemma tools_call_type_error:
  "handle_tools_call s params = Inl (JsonTypeError n msg) \<Longrightarrow>
   \<exists>v. jget params ''name'' = Some v \<and> \<not> is_string v"
  by (auto simp: handle_tools_call_def Let_def split: option.splits sum.splits json.splits if_splits
           elim!: get_string.elims)

lemma resources_read_type_error:
  "handle_resources_read s params = Inl (JsonTypeError n msg) \<Longrightarrow>
   \<exists>v. jget params ''uri'' = Some v \<and> \<not> is_string v"
  by (auto simp: handle_resources_read_def split: option.splits sum.splits
           elim!: get_string.elims)

lemma prompts_get_type_error:
  "handle_prompts_get s params = Inl (JsonTypeError n msg) \<Longrightarrow>
   \<exists>v. jget params ''name'' = Some v \<and> \<not> is_string v"
  by (auto simp: handle_prompts_get_def Let_def split: option.splits sum.splits
           elim!: get_string.elims)

lemma route_type_error:
  assumes "route s mname params = Some (Inl (JsonTypeError n msg))"
  shows "(mname = ''tools/call'' \<or> mname = ''prompts/get'')
           \<and> (\<exists>v. jget params ''name'' = Some v \<and> \<not> is_string v)
       \<or> mname = ''resources/read'' \<and> (\<exists>v. jget params ''uri'' = Some v \<and> \<not> is_string v)"
  using assms
  by (auto simp: route_def handle_tools_list_def handle_resources_list_def handle_prompts_list_def
           split: if_splits dest: tools_call_type_error resources_read_type_error prompts_get_type_error)

lemma demo_ready_simps:
  "initialized demo_ready" "tools demo_ready = tools demo_server"
  by (simp_all add: demo_ready_def handle_initialize_def Let_def)


text \<open>
  C1, as the code has it. The handler reads the id with \<^verbatim>\<open>get<int>()\<close> and both response
  builders take an \<^verbatim>\<open>int\<close>. For a request with version "2.0", a string method and an
  integer id \<open>x\<close> in the range of a 32-bit \<^verbatim>\<open>int\<close>, whose \<open>name\<close> (for \<^verbatim>\<open>tools/call\<close> and
  \<^verbatim>\<open>prompts/get\<close>) or \<open>uri\<close> (for \<^verbatim>\<open>resources/read\<close>) parameter, when present, is a string,
  the handler returns a response whose id is the integer \<open>x\<close>.
\<close>

theorem echoed_id:
  assumes v: "jget message ''jsonrpc'' = Some (JString ''2.0'')"
    and m: "jget message ''method'' = Some (JString mname)"
    and i: "jget message ''id'' = Some (JInt x)"
    and range: "- 2147483648 \<le> x" "x < 2147483648"
    and p: "params = (case jget message ''params'' of Some p \<Rightarrow> p | None \<Rightarrow> JObject [])"
    and name: "mname = ''tools/call'' \<or> mname = ''prompts/get'' \<Longrightarrow>
                 \<forall>v. jget params ''name'' = Some v \<longrightarrow> is_string v"
    and uri: "mname = ''resources/read'' \<Longrightarrow> \<forall>v. jget params ''uri'' = Some v \<longrightarrow> is_string v"
  shows "\<exists>response s'. handle_message s message = Inr (response, s')
                        \<and> jget response ''id'' = Some (JInt x)"
proof -
  have mid: "message_id message = Inr x"
    using i get_int_in_range[OF range] by (simp add: message_id_def del: get_int.simps)
  show ?thesis
  proof (cases "mname = ''initialize''")
    case True
    then show ?thesis using v m mid
      by (auto simp: handle_message_def handle_message_body_def response_ids split: prod.splits)
  next
    case ni: False
    show ?thesis
    proof (cases "initialized s")
      case False
      then show ?thesis using v m mid ni
        by (simp add: handle_message_def handle_message_body_def response_ids)
    next
      case True
      have body: "handle_message_body s message =
                    (case route s mname params of
                       None \<Rightarrow> Inr (create_error_response x (- 32601) (''Method not found: '' @ mname), s)
                     | Some (Inl e) \<Rightarrow> Inl e
                     | Some (Inr result) \<Rightarrow> Inr (create_success_response x result, s))"
        using v m mid ni True p by (simp add: handle_message_body_def)
      show ?thesis
      proof (cases "route s mname params")
        case None
        then show ?thesis using body by (simp add: handle_message_def response_ids)
      next
        case (Some r)
        show ?thesis
        proof (cases r)
          case (Inr result)
          then show ?thesis using body Some by (simp add: handle_message_def response_ids)
        next
          case (Inl e)
          show ?thesis
          proof (cases e)
            case (StdException msg)
            then show ?thesis using body Some Inl mid
              by (simp add: handle_message_def response_ids)
          next
            case (JsonTypeError k msg)
            then have "route s mname params = Some (Inl (JsonTypeError k msg))"
              using Some Inl by simp
            from route_type_error[OF this] name uri have False by auto
            then show ?thesis ..
          qed
        qed
      qed
    qed
  qed
qed

theorem echoed_id_witness:
  "response_id (handle_message demo_ready (request (JInt 2) ''tools/call''
      (jobject [(''name'', JString ''add'')]))) = Some (JInt 2)"
proof -
  let ?msg = "request (JInt 2) ''tools/call'' (jobject [(''name'', JString ''add'')])"
  have "\<exists>response s'. handle_message demo_ready ?msg = Inr (response, s')
                        \<and> jget response ''id'' = Some (JInt 2)"
    by (rule echoed_id[where mname = "''tools/call''" and params = "jobject [(''name'', JString ''add'')]"])
       (simp_all add: request_def jget_jobject)
  then show ?thesis by (auto simp: response_id_def)
qed

text \<open>
  C1 as stated fails for a string id: the request with id \<open>"abc"\<close> on an initialised server is
  answered with id \<open>-1\<close> (the type error of \<^verbatim>\<open>get<int>()\<close> is caught as a parse error).
\<close>

theorem string_id_counterexample:
  "response_id (handle_message demo_ready (request (JString ''abc'') ''tools/list'' (JObject [])))
     = Some (JInt (- 1))"
  by (simp add: handle_message_def handle_message_body_def request_def jget_jobject message_id_def
        response_id_def response_ids)

text \<open>
  C2, as the code has it. On a server that is not initialised, a request with version "2.0",
  a string method other than \<^verbatim>\<open>initialize\<close>, and an id that is absent (read as \<open>-1\<close>) or
  convertible by \<^verbatim>\<open>get<int>()\<close> is answered with the error \<open>-32002\<close> "Server not initialized",
  and the server state is returned unchanged.
\<close>

theorem initialisation_gate:
  assumes "\<not> initialized s"
    and "jget message ''jsonrpc'' = Some (JString ''2.0'')"
    and "jget message ''method'' = Some (JString mname)"
    and "mname \<noteq> ''initialize''"
    and "message_id message = Inr n"
  shows "handle_message s message =
           Inr (create_error_response n (- 32002) ''Server not initialized'', s)"
  using assms by (simp add: handle_message_def handle_message_body_def)

theorem initialisation_gate_witness:
  "handle_message demo_server (request (JInt 7) ''tools/list'' (JObject [])) =
     Inr (create_error_response 7 (- 32002) ''Server not initialized'', demo_server)"
  by (rule initialisation_gate[where mname = "''tools/list''"])
     (simp_all add: request_def jget_jobject message_id_def demo_server_def add_tool_def new_server_def)

text \<open>
  C2 as stated fails for a request whose id is a string: the id is read before the
  initialisation check, and the answer is error \<open>-32700\<close>.
\<close>

theorem gate_string_id_counterexample:
  "\<not> initialized demo_server \<and>
   error_code (handle_message demo_server (request (JString ''seven'') ''tools/list'' (JObject [])))
     = Some (JInt (- 32700))"
  by (simp add: handle_message_def handle_message_body_def request_def jget_jobject message_id_def
        error_code_response demo_server_def add_tool_def new_server_def)

lemma unknown_method_error:
  assumes "initialized s"
    and "jget message ''jsonrpc'' = Some (JString ''2.0'')"
    and "jget message ''method'' = Some (JString mname)"
    and "mname \<noteq> ''initialize''"
    and "route s mname (case jget message ''params'' of Some p \<Rightarrow> p | None \<Rightarrow> JObject []) = None"
    and "message_id message = Inr n"
  shows "handle_message s message =
           Inr (create_error_response n (- 32601) (''Method not found: '' @ mname), s)"
  using assms by (simp add: handle_message_def handle_message_body_def)

lemma parse_error_line_length: "length parse_error_line = 1"
  by (simp add: parse_error_line_def create_error_response_def jobject_def quote_def utf8_len_def
        escape_char_def int_to_string_def nat_to_string.simps digit_char_def Let_def)

lemma written_line_length:
  "length (case dump response of Inr line \<Rightarrow> [line] | Inl e \<Rightarrow> parse_error_line) = 1"
  by (simp add: parse_error_line_length split: sum.splits)

text \<open>
  C6, evaluated on the code. On an initialised server the message
  \<^verbatim>\<open>{"jsonrpc":"2.0","method":"notifications/initialized"}\<close> falls through to the last branch
  of the method chain: the handler returns the error response \<open>-32601\<close> with id \<open>-1\<close>, and
  the standard-input loop writes one line for it.
\<close>

theorem initialized_notification_is_answered:
  "initialized demo_ready \<and>
   handle_message demo_ready (notification ''notifications/initialized'') =
     Inr (create_error_response (- 1) (- 32601) ''Method not found: notifications/initialized'',
          demo_ready) \<and>
   length (fst (run_stdio_loop demo_ready [Some (notification ''notifications/initialized'')])) = 1"
proof -
  have h: "handle_message demo_ready (notification ''notifications/initialized'') =
     Inr (create_error_response (- 1) (- 32601) ''Method not found: notifications/initialized'',
          demo_ready)"
    by (rule unknown_method_error[where mname = "''notifications/initialized''", simplified])
       (simp_all add: notification_def jget_jobject demo_ready_simps route_def message_id_def)
  show ?thesis
    using h by (simp add: demo_ready_simps written_line_length)
qed




subsection \<open>Workflow execution\<close>

lemma apply_input_mapping_keys:
  "apply_input_mapping mapping env sp = Inr p \<Longrightarrow>
   jget p k = (case map_of (rev mapping) k of
                 Some template \<Rightarrow>
                   (case replace_variables (JString template) env of Inr v \<Rightarrow> Some v | Inl e \<Rightarrow> None)
               | None \<Rightarrow> jget sp k)"
proof (induction mapping arbitrary: sp)
  case Nil
  then show ?case by simp
next
  case (Cons a rest)
  obtain pn t where a: "a = (pn, t)" by (cases a)
  from Cons.prems a obtain mv sp' where
    mv: "replace_variables (JString t) env = Inr mv" and
    sp': "jset sp pn mv = Inr sp'" and
    rest: "apply_input_mapping rest env sp' = Inr p"
    by (auto split: sum.splits)
  note ih = Cons.IH[OF rest]
  show ?case
    using ih jget_jset[OF sp', of k] mv a
    by (auto simp: map_add_def split: option.splits)
qed

lemma run_steps_call:
  "run_steps reg steps params names env = (r, calls) \<Longrightarrow> i < length calls \<Longrightarrow>
   \<exists>step. find (\<lambda>s. step_name s = call_step (calls ! i)) steps = Some step
     \<and> i < length names \<and> call_step (calls ! i) = names ! i
     \<and> apply_input_mapping (step_input_mapping step) (env_after steps (take i calls) env) params
           = Inr (call_params (calls ! i))"
proof (induction names arbitrary: env r calls i)
  case Nil
  then show ?case by simp
next
  case (Cons nm rest)
  from Cons.prems obtain step where step: "find (\<lambda>s. step_name s = nm) steps = Some step"
    by (auto split: option.splits)
  from Cons.prems step obtain sp where sp: "apply_input_mapping (step_input_mapping step) env params = Inr sp"
    by (auto split: sum.splits)
  from Cons.prems step sp obtain task where task: "reg (step_task step) = Some task"
    by (auto split: option.splits)
  show ?case
  proof (cases "task sp")
    case (Inl e)
    then show ?thesis using Cons.prems step sp task by auto
  next
    case (Inr result)
    let ?c = "\<lparr>call_step = nm, call_params = sp, call_result = Inr result\<rparr>"
    let ?env = "store_results step nm result env"
    show ?thesis
    proof (cases "check_failure nm result ?env")
      case (Inl e)
      then show ?thesis using Cons.prems step sp task Inr by (auto simp: Let_def)
    next
      case chk: (Inr opt)
      show ?thesis
      proof (cases opt)
        case (Some response)
        then show ?thesis using Cons.prems step sp task Inr chk by (auto simp: Let_def)
      next
        case None
        obtain r' calls' where rec: "run_steps reg steps params rest ?env = (r', calls')"
          by (cases "run_steps reg steps params rest ?env")
        have calls: "calls = ?c # calls'" and r: "r = r'"
          using Cons.prems(1) step sp task Inr chk None rec by (auto simp: Let_def)
        show ?thesis
        proof (cases i)
          case 0
          then show ?thesis using calls step sp by simp
        next
          case (Suc j)
          then have j: "j < length calls'" using Cons.prems(2) calls by simp
          from Cons.IH[OF rec j] show ?thesis
            using calls Suc step by auto
        qed
      qed
    qed
  qed
qed

lemma run_steps_failure:
  "run_steps reg steps params names env = (r, calls) \<Longrightarrow> i < length calls \<Longrightarrow>
   call_result (calls ! i) = Inr result \<Longrightarrow> jget result ''success'' = Some (JBool False) \<Longrightarrow>
   jget result ''error'' = None \<and> err = ''Unknown error'' \<or> jget result ''error'' = Some (JString err) \<Longrightarrow>
   length calls = Suc i \<and>
   r = Returned (jobject [(''success'', JBool False),
                          (''failed_step'', JString (call_step (calls ! i))),
                          (''error'', JString err),
                          (''step_results'', JObject (env_after steps calls env))])"
proof (induction names arbitrary: env r calls i)
  case Nil
  then show ?case by simp
next
  case (Cons nm rest)
  from Cons.prems(1,2) obtain step where step: "find (\<lambda>s. step_name s = nm) steps = Some step"
    by (auto split: option.splits)
  from Cons.prems(1,2) step obtain sp where sp: "apply_input_mapping (step_input_mapping step) env params = Inr sp"
    by (auto split: sum.splits)
  from Cons.prems(1,2) step sp obtain task where task: "reg (step_task step) = Some task"
    by (auto split: option.splits)
  show ?case
  proof (cases "task sp")
    case (Inl e)
    then show ?thesis using Cons.prems step sp task by auto
  next
    case (Inr res)
    let ?c = "\<lparr>call_step = nm, call_params = sp, call_result = Inr res\<rparr>"
    let ?env = "store_results step nm res env"
    have hd: "calls ! 0 = ?c"
      using Cons.prems(1,2) step sp task Inr
      by (auto simp: Let_def split: sum.splits option.splits prod.splits)
    show ?thesis
    proof (cases i)
      case 0
      then have res: "res = result" using hd Cons.prems(3) by simp
      have chk: "check_failure nm res ?env =
              Inr (Some (jobject [(''success'', JBool False), (''failed_step'', JString nm),
                     (''error'', JString err), (''step_results'', JObject ?env)]))"
        using Cons.prems(4,5) res by (auto simp: check_failure_def)
      have "calls = [?c]" "r = Returned (jobject [(''success'', JBool False), (''failed_step'', JString nm),
                     (''error'', JString err), (''step_results'', JObject ?env)])"
        using Cons.prems(1) step sp task Inr chk by (auto simp: Let_def)
      then show ?thesis using 0 step by simp
    next
      case (Suc j)
      have len: "Suc j < length calls" using Suc Cons.prems(2) by simp
      have chk: "check_failure nm res ?env = Inr None"
      proof (cases "check_failure nm res ?env")
        case (Inl e)
        then show ?thesis using Cons.prems(1) len step sp task Inr by (auto simp: Let_def)
      next
        case chk: (Inr opt)
        then show ?thesis using Cons.prems(1) len step sp task Inr
          by (cases opt) (auto simp: Let_def)
      qed
      obtain r' calls' where rec: "run_steps reg steps params rest ?env = (r', calls')"
        by (cases "run_steps reg steps params rest ?env")
      have calls: "calls = ?c # calls'" and r: "r = r'"
        using Cons.prems(1) step sp task Inr chk rec by (auto simp: Let_def)
      have j: "j < length calls'" using len calls by simp
      have cr: "call_result (calls' ! j) = Inr result" using Cons.prems(3) Suc calls by simp
      from Cons.IH[OF rec j cr Cons.prems(4,5)] show ?thesis
        using calls r Suc step by simp
    qed
  qed
qed



lemma env_after_snoc:
  "env_after steps (cs @ [c]) env =
     (case (find (\<lambda>s. step_name s = call_step c) steps, call_result c) of
        (Some step, Inr result) \<Rightarrow> store_results step (call_step c) result (env_after steps cs env)
      | _ \<Rightarrow> env_after steps cs env)"
  by (induction cs arbitrary: env) (auto split: option.splits sum.splits)

lemma env_after_last:
  assumes "length calls = Suc i"
    and "find (\<lambda>s. step_name s = call_step (calls ! i)) steps = Some step"
    and "call_result (calls ! i) = Inr result"
  shows "map_of (env_after steps calls env) (call_step (calls ! i)) = Some result"
proof -
  have "calls = take i calls @ [calls ! i]"
    using assms(1) by (metis lessI take_Suc_conv_app_nth take_all order_refl)
  then have "env_after steps calls env =
               store_results step (call_step (calls ! i)) result (env_after steps (take i calls) env)"
    using env_after_snoc[of steps "take i calls" "calls ! i" env] assms(2,3) by simp
  then show ?thesis by (simp add: store_results_def map_of_smap_set)
qed

lemma execute_run_steps:
  "execute task_registry workflow params = (response, calls) \<Longrightarrow>
   \<exists>r. run_steps task_registry (workflow_steps workflow) params
          (resolve_dependencies (workflow_steps workflow)) [] = (r, calls)
     \<and> (\<forall>resp. r = Returned resp \<longrightarrow> response = resp)"
  by (auto simp: execute_def Let_def split: prod.splits loop_result.splits)

lemma demo_calls:
  "snd (execute demo_registry demo_workflow demo_params) =
     [\<lparr>call_step = ''s1'', call_params = JObject [(''q'', JInt 5)],
       call_result = Inr (JObject [(''data'', JString ''hello''), (''success'', JBool True)])\<rparr>,
      \<lparr>call_step = ''s2'', call_params = JObject [(''json_string'', JString ''hello''), (''q'', JInt 5)],
       call_result = Inr (JObject [(''data'', JString ''hello''), (''success'', JBool True)])\<rparr>]"
  unfolding execute_def demo_workflow_def
  apply (simp add: demo_order)
  apply (simp add: demo_steps_def demo_registry_def hello_handler_def demo_params_def
      create_success_response_dyn_def jobject_def store_results_def check_failure_def
      replace_variables_def replacement_of_def quote_def utf8_len_def escape_char_def Let_def)
  done

lemma failing_run:
  "execute demo_registry failing_workflow demo_params =
     (JObject [(''error'', JString ''Unknown error''), (''failed_step'', JString ''s2''),
               (''step_results'',
                JObject [(''s1'', JObject [(''data'', JString ''hello''), (''success'', JBool True)]),
                         (''s1_out'', JString ''hello''),
                         (''s2'', JObject [(''returncode'', JInt 1), (''success'', JBool False)])]),
               (''success'', JBool False)],
      [\<lparr>call_step = ''s1'', call_params = JObject [(''q'', JInt 5)],
        call_result = Inr (JObject [(''data'', JString ''hello''), (''success'', JBool True)])\<rparr>,
       \<lparr>call_step = ''s2'', call_params = JObject [(''q'', JInt 5)],
        call_result = Inr (JObject [(''returncode'', JInt 1), (''success'', JBool False)])\<rparr>])"
  unfolding execute_def failing_workflow_def
  apply (simp add: resolve_dependencies_def build_step_map_def visit.simps)
  apply (simp add: demo_registry_def failing_handler_def hello_handler_def demo_params_def
      create_success_response_dyn_def jobject_def store_results_def check_failure_def)
  done

text \<open>
  C4, as the code has it. The parameters that the task handler of the \<open>i\<close>-th executed step
  receives are the workflow's input arguments in which every key of the step's input mapping
  is set to its template substituted against \<^verbatim>\<open>step_results\<close>: the outputs mapped by the
  earlier steps and each earlier step's whole result under the step's name, starting from
  the empty map. The input arguments are no part of the substitution environment, and what
  the earlier steps bound reaches the handler only through the input mapping.
\<close>

theorem step_params_from_step_results:
  assumes ex: "execute task_registry workflow params = (response, calls)"
    and i: "i < length calls"
  shows "\<exists>step. find (\<lambda>s. step_name s = call_step (calls ! i)) (workflow_steps workflow) = Some step
           \<and> call_step (calls ! i) = resolve_dependencies (workflow_steps workflow) ! i
           \<and> apply_input_mapping (step_input_mapping step)
                (env_after (workflow_steps workflow) (take i calls) []) params
               = Inr (call_params (calls ! i))
           \<and> (\<forall>k. jget (call_params (calls ! i)) k =
                 (case map_of (rev (step_input_mapping step)) k of
                    Some template \<Rightarrow>
                      (case replace_variables (JString template)
                              (env_after (workflow_steps workflow) (take i calls) []) of
                         Inr v \<Rightarrow> Some v | Inl e \<Rightarrow> None)
                  | None \<Rightarrow> jget params k))"
proof -
  from execute_run_steps[OF ex] obtain r where
    run: "run_steps task_registry (workflow_steps workflow) params
            (resolve_dependencies (workflow_steps workflow)) [] = (r, calls)"
    by blast
  from run_steps_call[OF run i] obtain step where
    st: "find (\<lambda>s. step_name s = call_step (calls ! i)) (workflow_steps workflow) = Some step"
      "call_step (calls ! i) = resolve_dependencies (workflow_steps workflow) ! i"
      "apply_input_mapping (step_input_mapping step)
         (env_after (workflow_steps workflow) (take i calls) []) params
        = Inr (call_params (calls ! i))"
    by blast
  show ?thesis
    using st apply_input_mapping_keys[OF st(3)] by blast
qed

theorem step_params_from_step_results_witness:
  "length (snd (execute demo_registry demo_workflow demo_params)) = 2 \<and>
   jget (call_params (snd (execute demo_registry demo_workflow demo_params) ! 1)) ''json_string''
     = Some (JString ''hello'') \<and>
   jget (call_params (snd (execute demo_registry demo_workflow demo_params) ! 1)) ''q''
     = Some (JInt 5) \<and>
   jget (call_params (snd (execute demo_registry demo_workflow demo_params) ! 1)) ''s1'' = None"
proof -
  let ?calls = "snd (execute demo_registry demo_workflow demo_params)"
  have ex: "execute demo_registry demo_workflow demo_params =
              (fst (execute demo_registry demo_workflow demo_params), ?calls)" by simp
  have len: "1 < length ?calls" unfolding demo_calls by simp
  from step_params_from_step_results[OF ex len] obtain step where
    st: "find (\<lambda>s. step_name s = call_step (?calls ! 1)) (workflow_steps demo_workflow) = Some step"
    and keys: "\<And>k. jget (call_params (?calls ! 1)) k =
                 (case map_of (rev (step_input_mapping step)) k of
                    Some template \<Rightarrow>
                      (case replace_variables (JString template)
                              (env_after (workflow_steps demo_workflow) (take 1 ?calls) []) of
                         Inr v \<Rightarrow> Some v | Inl e \<Rightarrow> None)
                  | None \<Rightarrow> jget demo_params k)"
    by blast
  have step: "step = \<lparr>step_name = ''s2'', step_task = ''echo'', step_dependencies = [''s1''],
       step_input_mapping = [(''json_string'', ''{s1_out}'')], step_output_mapping = []\<rparr>"
    using st unfolding demo_calls by (simp add: demo_workflow_def demo_steps_def)
  have env: "env_after (workflow_steps demo_workflow) (take 1 ?calls) [] =
               [(''s1'', JObject [(''data'', JString ''hello''), (''success'', JBool True)]),
                (''s1_out'', JString ''hello'')]"
    unfolding demo_calls by (simp add: demo_workflow_def demo_steps_def store_results_def)
  have sub: "replace_variables (JString ''{s1_out}'')
               [(''s1'', JObject [(''data'', JString ''hello''), (''success'', JBool True)]),
                (''s1_out'', JString ''hello'')] = Inr (JString ''hello'')"
    by (simp add: replace_variables_def replacement_of_def quote_def utf8_len_def escape_char_def Let_def)
  show ?thesis
    using keys[of "''json_string''"] keys[of "''q''"] keys[of "''s1''"]
    unfolding step env demo_calls by (simp add: sub demo_params_def)
qed

text \<open>
  C4 as stated fails: for the second step of the example workflow the specification's
  parameters contain the variables \<open>s1\<close> and \<open>s1_out\<close> bound by the first step, the parameters
  the handler receives do not.
\<close>

theorem earlier_results_not_passed_counterexample:
  "find (\<lambda>s. step_name s = ''s2'') demo_steps =
     Some \<lparr>step_name = ''s2'', step_task = ''echo'', step_dependencies = [''s1''],
           step_input_mapping = [(''json_string'', ''{s1_out}'')], step_output_mapping = []\<rparr> \<and>
   Inr (call_params (snd (execute demo_registry demo_workflow demo_params) ! 1)) \<noteq>
     spec_step_params demo_steps demo_params
       (take 1 (snd (execute demo_registry demo_workflow demo_params)))
       \<lparr>step_name = ''s2'', step_task = ''echo'', step_dependencies = [''s1''],
        step_input_mapping = [(''json_string'', ''{s1_out}'')], step_output_mapping = []\<rparr>"
  unfolding demo_calls
  by (simp add: demo_steps_def spec_step_params_def spec_env_def demo_params_def
        store_results_def replace_variables_def replacement_of_def quote_def utf8_len_def
        escape_char_def int_to_string_def nat_to_string.simps digit_char_def Let_def)

text \<open>
  C8, as the code has it. If the handler of the \<open>i\<close>-th executed step returns an object with
  \<open>success: false\<close> whose \<open>error\<close> field is a string or is absent, then that call is the last
  one, and the workflow returns the object with \<open>success: false\<close>, \<open>failed_step\<close> the name of
  the step, \<open>error\<close> the string of the error field ("Unknown error" when the field is
  absent), and \<open>step_results\<close> the contents of \<^verbatim>\<open>step_results\<close> after all calls made: starting
  from the empty map, the outputs mapped by the executed steps and each executed step's whole
  result under its name, the failing step's among them. The workflow's input arguments are
  no part of it.
\<close>

theorem failing_step_halts_workflow:
  assumes ex: "execute task_registry workflow params = (response, calls)"
    and i: "i < length calls"
    and res: "call_result (calls ! i) = Inr result"
    and fail: "jget result ''success'' = Some (JBool False)"
    and err: "jget result ''error'' = None \<and> err = ''Unknown error''
              \<or> jget result ''error'' = Some (JString err)"
  shows "length calls = Suc i
       \<and> response = jobject [(''success'', JBool False),
                             (''failed_step'', JString (call_step (calls ! i))),
                             (''error'', JString err),
                             (''step_results'', JObject (env_after (workflow_steps workflow) calls []))]
       \<and> map_of (env_after (workflow_steps workflow) calls []) (call_step (calls ! i)) = Some result"
proof -
  from execute_run_steps[OF ex] obtain r where
    run: "run_steps task_registry (workflow_steps workflow) params
            (resolve_dependencies (workflow_steps workflow)) [] = (r, calls)"
    and ret: "\<forall>resp. r = Returned resp \<longrightarrow> response = resp"
    by blast
  note f = run_steps_failure[OF run i res fail err]
  from run_steps_call[OF run i] obtain step where
    st: "find (\<lambda>s. step_name s = call_step (calls ! i)) (workflow_steps workflow) = Some step"
    by blast
  have "map_of (env_after (workflow_steps workflow) calls []) (call_step (calls ! i)) = Some result"
    using env_after_last[OF _ st res] f by blast
  then show ?thesis using f ret by simp
qed

theorem failing_step_halts_workflow_witness:
  "fst (execute demo_registry failing_workflow demo_params) =
     jobject [(''success'', JBool False), (''failed_step'', JString ''s2''),
              (''error'', JString ''Unknown error''),
              (''step_results'',
               JObject [(''s1'', JObject [(''data'', JString ''hello''), (''success'', JBool True)]),
                        (''s1_out'', JString ''hello''),
                        (''s2'', JObject [(''returncode'', JInt 1), (''success'', JBool False)])])]
   \<and> length (snd (execute demo_registry failing_workflow demo_params)) = 2
   \<and> length (resolve_dependencies (workflow_steps failing_workflow)) = 3"
proof -
  let ?calls = "snd (execute demo_registry failing_workflow demo_params)"
  have ex: "execute demo_registry failing_workflow demo_params =
              (fst (execute demo_registry failing_workflow demo_params), ?calls)" by simp
  have len: "1 < length ?calls" unfolding failing_run by simp
  have res: "call_result (?calls ! 1) = Inr (JObject [(''returncode'', JInt 1), (''success'', JBool False)])"
    unfolding failing_run by simp
  note t = failing_step_halts_workflow[OF ex len res, of "''Unknown error''"]
  have "length ?calls = Suc 1
       \<and> fst (execute demo_registry failing_workflow demo_params)
           = jobject [(''success'', JBool False),
                             (''failed_step'', JString (call_step (?calls ! 1))),
                             (''error'', JString ''Unknown error''),
                             (''step_results'', JObject (env_after (workflow_steps failing_workflow) ?calls []))]
       \<and> map_of (env_after (workflow_steps failing_workflow) ?calls []) (call_step (?calls ! 1))
           = Some (JObject [(''returncode'', JInt 1), (''success'', JBool False)])"
    by (rule t) simp_all
  moreover have "length (resolve_dependencies (workflow_steps failing_workflow)) = 3"
    using resolve_order_set[of "workflow_steps failing_workflow"]
          distinct_card[of "resolve_dependencies (workflow_steps failing_workflow)"]
    by (simp add: failing_workflow_def)
  ultimately show ?thesis
    unfolding failing_run by (simp add: failing_workflow_def store_results_def jobject_def)
qed

text \<open>
  C8 as stated fails on two counts at a workflow with the input arguments \<open>{q: 5}\<close> whose
  second step fails without an \<open>error\<close> field, which is what the terminal executor returns
  for a non-zero exit status. The workflow's \<open>error\<close> is the text "Unknown error", which is no
  field of the step's result; and the returned \<open>step_results\<close> is not the environment of the
  specification, which starts as the workflow's input arguments: it has no entry \<open>q\<close>.
\<close>

theorem missing_error_field_counterexample:
  "call_result (snd (execute demo_registry failing_workflow demo_params) ! 1) =
     Inr (JObject [(''returncode'', JInt 1), (''success'', JBool False)])
   \<and> jget (JObject [(''returncode'', JInt 1), (''success'', JBool False)]) ''error'' = None
   \<and> jget (fst (execute demo_registry failing_workflow demo_params)) ''error''
       = Some (JString ''Unknown error'')
   \<and> jget demo_params ''q'' = Some (JInt 5)
   \<and> map_of (spec_env (workflow_steps failing_workflow) demo_params
                (snd (execute demo_registry failing_workflow demo_params))) ''q'' = Some (JInt 5)
   \<and> jget (fst (execute demo_registry failing_workflow demo_params)) ''step_results''
       = Some (JObject [(''s1'', JObject [(''data'', JString ''hello''), (''success'', JBool True)]),
                        (''s1_out'', JString ''hello''),
                        (''s2'', JObject [(''returncode'', JInt 1), (''success'', JBool False)])])
   \<and> jget (JObject [(''s1'', JObject [(''data'', JString ''hello''), (''success'', JBool True)]),
                     (''s1_out'', JString ''hello''),
                     (''s2'', JObject [(''returncode'', JInt 1), (''success'', JBool False)])]) ''q''
       = None"
  unfolding failing_run
  by (simp add: demo_params_def spec_env_def failing_workflow_def store_results_def)

subsection \<open>Synthesised task tools\<close>

text \<open>
  C5, evaluated on the code. The task declares the parameter \<open>count\<close> of type \<open>integer\<close>; the
  caller supplies the string \<open>"many"\<close>. \<open>validate_parameter_type\<close> rejects this pair, but the
  handler never calls it: the value reaches the executor as supplied and no error is returned.
\<close>

theorem mistyped_parameter_is_accepted:
  "\<not> validate_parameter_type ''integer'' (JString ''many'') \<and>
   task_tool_handler demo_executors counting_task (jobject [(''count'', JString ''many'')]) =
     Inr (create_success_response_dyn (jobject [(''count'', JString ''many'')]))"
  by (simp add: validate_parameter_type_def task_tool_handler_def counting_task_def
        demo_executors_def echo_executor_def contains_def jget_jobject)

subsection \<open>Placeholder substitution\<close>

lemma replace_all_skip:
  "CHR ''{'' \<notin> set w \<Longrightarrow>
   replace_all (''{'' @ k @ ''}'') r (w @ rest) = w @ replace_all (''{'' @ k @ ''}'') r rest"
  by (induction w) auto

lemma takeWhile_closing:
  "CHR ''}'' \<notin> set k \<Longrightarrow> takeWhile (\<lambda>c. c \<noteq> CHR ''}'') (k @ CHR ''}'' # zs) = k"
  by (induction k) auto

lemma no_match_at_other_placeholder:
  assumes "brace_free k" "brace_free y" "k \<noteq> y"
  shows "take (length (''{'' @ k @ ''}'')) ((''{'' @ y @ ''}'') @ post) \<noteq> ''{'' @ k @ ''}''"
proof
  assume eq: "take (length (''{'' @ k @ ''}'')) ((''{'' @ y @ ''}'') @ post) = ''{'' @ k @ ''}''"
  then have "take (Suc (length k)) (y @ CHR ''}'' # post) = k @ ''}''" by simp
  then have "y @ CHR ''}'' # post = (k @ ''}'') @ drop (Suc (length k)) (y @ CHR ''}'' # post)"
    by (metis append_take_drop_id)
  then have "takeWhile (\<lambda>c. c \<noteq> CHR ''}'') (y @ CHR ''}'' # post)
           = takeWhile (\<lambda>c. c \<noteq> CHR ''}'') (k @ CHR ''}'' # drop (Suc (length k)) (y @ CHR ''}'' # post))"
    by simp
  then have "y = k"
    using assms(1,2) by (simp add: takeWhile_closing brace_free_def)
  then show False using assms(3) by simp
qed

lemma no_straddling_match:
  assumes k: "brace_free k"
    and m: "take (length (''{'' @ k @ ''}'')) ((c # cs) @ CHR ''{'' # rest) = ''{'' @ k @ ''}''"
  shows "length (''{'' @ k @ ''}'') \<le> length (c # cs)"
proof (rule ccontr)
  assume "\<not> length (''{'' @ k @ ''}'') \<le> length (c # cs)"
  then have lt: "length (c # cs) < length (''{'' @ k @ ''}'')" by simp
  have "(''{'' @ k @ ''}'') ! length (c # cs)
          = (take (length (''{'' @ k @ ''}'')) ((c # cs) @ CHR ''{'' # rest)) ! length (c # cs)"
    using m by simp
  also have "\<dots> = ((c # cs) @ CHR ''{'' # rest) ! length (c # cs)"
    using lt by (intro nth_take)
  also have "\<dots> = CHR ''{''" by (rule nth_append_length)
  finally have "(k @ ''}'') ! length cs = CHR ''{''" by simp
  moreover have "length cs < length (k @ ''}'')" using lt by simp
  ultimately have "CHR ''{'' \<in> set (k @ ''}'')" by (metis nth_mem)
  then show False using k by (simp add: brace_free_def)
qed

lemma replace_all_match:
  "p \<noteq> [] \<Longrightarrow> take (length p) s = p \<Longrightarrow>
   replace_all p r s = r @ replace_all p r (drop (length p) s)"
  by (cases s) auto

lemma replace_all_no_match:
  "take (length p) (c # cs) \<noteq> p \<Longrightarrow> replace_all p r (c # cs) = c # replace_all p r cs"
  by simp

lemma replace_all_around_placeholder:
  assumes k: "brace_free k" and y: "brace_free y" and ky: "k \<noteq> y"
  shows "replace_all (''{'' @ k @ ''}'') r (pre @ (''{'' @ y @ ''}'') @ post) =
         replace_all (''{'' @ k @ ''}'') r pre @ (''{'' @ y @ ''}'') @ replace_all (''{'' @ k @ ''}'') r post"
proof -
  define P where "P = ''{'' @ k @ ''}''"
  define Y where "Y = ''{'' @ y @ ''}''"
  have P_ne: "P \<noteq> []" by (simp add: P_def)
  have Y_hd: "Y = CHR ''{'' # (y @ ''}'')" by (simp add: Y_def)
  have at_Y: "replace_all P r (Y @ post) = Y @ replace_all P r post" for post
  proof -
    have nm: "take (length P) (Y @ post) \<noteq> P"
      unfolding P_def Y_def by (rule no_match_at_other_placeholder[OF k y ky])
    then have "take (length P) (CHR ''{'' # ((y @ ''}'') @ post)) \<noteq> P" by (simp add: Y_hd)
    then have "replace_all P r (CHR ''{'' # ((y @ ''}'') @ post))
                 = CHR ''{'' # replace_all P r ((y @ ''}'') @ post)"
      by (rule replace_all_no_match)
    moreover have "replace_all P r ((y @ ''}'') @ post) = (y @ ''}'') @ replace_all P r post"
      unfolding P_def using y by (intro replace_all_skip) (simp add: brace_free_def)
    ultimately show ?thesis by (simp add: Y_hd)
  qed
  have "replace_all P r (pre @ Y @ post) = replace_all P r pre @ Y @ replace_all P r post"
  proof (induction "length pre" arbitrary: pre rule: less_induct)
    case less
    show ?case
    proof (cases pre)
      case Nil
      then show ?thesis using at_Y by simp
    next
      case (Cons c cs)
      show ?thesis
      proof (cases "take (length P) (pre @ Y @ post) = P")
        case True
        then have "take (length (''{'' @ k @ ''}'')) ((c # cs) @ CHR ''{'' # ((y @ ''}'') @ post))
                     = ''{'' @ k @ ''}''"
          unfolding P_def Cons Y_def by simp
        from no_straddling_match[OF k this] have le: "length P \<le> length pre"
          unfolding P_def Cons .
        have tk: "take (length P) pre = P" using True le by simp
        have dr: "drop (length P) (pre @ Y @ post) = drop (length P) pre @ Y @ post"
          using le by simp
        have "length (drop (length P) pre) < length pre" using Cons P_ne by simp
        from less[OF this] have ih:
          "replace_all P r (drop (length P) pre @ Y @ post) =
           replace_all P r (drop (length P) pre) @ Y @ replace_all P r post" .
        have "replace_all P r (pre @ Y @ post) = r @ replace_all P r (drop (length P) (pre @ Y @ post))"
          using P_ne True by (rule replace_all_match)
        also have "\<dots> = (r @ replace_all P r (drop (length P) pre)) @ Y @ replace_all P r post"
          unfolding dr ih by simp
        also have "r @ replace_all P r (drop (length P) pre) = replace_all P r pre"
          using replace_all_match[OF P_ne tk, of r] by simp
        finally show ?thesis .
      next
        case False
        have nf: "take (length P) pre \<noteq> P"
        proof
          assume t: "take (length P) pre = P"
          then have "length P \<le> length pre"
            by (metis length_take min.cobounded2 min.commute)
          then have "take (length P) (pre @ Y @ post) = take (length P) pre" by simp
          then show False using False t by simp
        qed
        have "length cs < length pre" using Cons by simp
        from less[OF this] have ih:
          "replace_all P r (cs @ Y @ post) = replace_all P r cs @ Y @ replace_all P r post" .
        have "take (length P) (c # (cs @ Y @ post)) \<noteq> P" using False Cons by simp
        then have "replace_all P r (c # (cs @ Y @ post)) = c # replace_all P r (cs @ Y @ post)"
          by (rule replace_all_no_match)
        moreover have "replace_all P r (c # cs) = c # replace_all P r cs"
          using nf Cons by (intro replace_all_no_match) simp
        ultimately show ?thesis using ih Cons by simp
      qed
    qed
  qed
  then show ?thesis unfolding P_def Y_def .
qed

lemma replace_each_around_placeholder:
  assumes y: "brace_free y"
  shows "y \<notin> fst ` set variables \<Longrightarrow> substitutable variables \<Longrightarrow>
    \<exists>a b. replace_each variables (pre @ (''{'' @ y @ ''}'') @ post) = Inr (a @ (''{'' @ y @ ''}'') @ b)
         \<and> replace_each variables pre = Inr a \<and> replace_each variables post = Inr b"
proof (induction variables arbitrary: pre post)
  case Nil
  show ?case by (simp only: replace_each.simps) blast
next
  case (Cons kv rest)
  obtain k v where kv: "kv = (k, v)" by (cases kv)
  from Cons.prems kv obtain r where
    k: "brace_free k" and r: "replacement_of v = Inr r" and ky: "k \<noteq> y"
    and rest: "y \<notin> fst ` set rest" "substitutable rest"
    by (auto simp: substitutable_def split: sum.splits)
  have step: "replace_each (kv # rest) s = replace_each rest (replace_all (''{'' @ k @ ''}'') r s)" for s
    unfolding kv by (simp only: replace_each.simps r sum.case)
  note ra = replace_all_around_placeholder[OF k y ky, of r pre post]
  from Cons.IH[OF rest, of "replace_all (''{'' @ k @ ''}'') r pre" "replace_all (''{'' @ k @ ''}'') r post"]
  show ?case unfolding step ra .
qed

lemma three_substitutions:
  "replace_variables (JString ''{x}'') [(''x'', JString ''hello'')] = Inr (JString ''hello'')"
  "replace_variables (JString ''{x}'') [(''x'', JInt 42)] = Inr (JString ''42'')"
  "replace_variables (JString ''a{x}b'') [(''x'', JString ''-'')] = Inr (JString ''a-b'')"
  by (simp_all add: replace_variables_def replacement_of_def int_to_string_def
        nat_to_string.simps digit_char_def)

text \<open>
  C9. Substituting \<open>{x}\<close> against \<open>x = "hello"\<close> gives \<open>hello\<close>; against \<open>x = 42\<close> it gives \<open>42\<close>;
  substituting \<open>a{x}b\<close> against \<open>x = "-"\<close> gives \<open>a-b\<close>. A placeholder \<open>{y}\<close> whose brace-free name
  is bound by no variable stays in the output as it is, wherever it stands in the template:
  the output is the substituted text before it, the placeholder, and the substituted text
  after it (for variables with brace-free names whose values have a replacement text).
\<close>

theorem substitution_fidelity:
  "replace_variables (JString ''{x}'') [(''x'', JString ''hello'')] = Inr (JString ''hello'')
   \<and> replace_variables (JString ''{x}'') [(''x'', JInt 42)] = Inr (JString ''42'')
   \<and> replace_variables (JString ''a{x}b'') [(''x'', JString ''-'')] = Inr (JString ''a-b'')
   \<and> (brace_free y \<and> y \<notin> fst ` set variables \<and> substitutable variables \<longrightarrow>
        (\<exists>a b. replace_variables (JString (pre @ ''{'' @ y @ ''}'' @ post)) variables
                  = Inr (JString (a @ ''{'' @ y @ ''}'' @ b))
              \<and> replace_variables (JString pre) variables = Inr (JString a)
              \<and> replace_variables (JString post) variables = Inr (JString b)))"
proof -
  have "\<exists>a b. replace_variables (JString (pre @ ''{'' @ y @ ''}'' @ post)) variables
                  = Inr (JString (a @ ''{'' @ y @ ''}'' @ b))
              \<and> replace_variables (JString pre) variables = Inr (JString a)
              \<and> replace_variables (JString post) variables = Inr (JString b)"
    if h: "brace_free y" "y \<notin> fst ` set variables" "substitutable variables"
  proof -
    from replace_each_around_placeholder[OF h, of pre post] obtain a b where
      ab: "replace_each variables (pre @ (''{'' @ y @ ''}'') @ post) = Inr (a @ (''{'' @ y @ ''}'') @ b)"
        "replace_each variables pre = Inr a" "replace_each variables post = Inr b"
      by blast
    have "pre @ ''{'' @ y @ ''}'' @ post = pre @ (''{'' @ y @ ''}'') @ post" by simp
    then have "replace_variables (JString (pre @ ''{'' @ y @ ''}'' @ post)) variables
                 = Inr (JString (a @ (''{'' @ y @ ''}'') @ b))"
      using ab(1) by (simp add: replace_variables_def)
    then show ?thesis using ab(2,3) by (auto simp: replace_variables_def)
  qed
  then show ?thesis using three_substitutions by blast
qed

theorem substitution_fidelity_witness:
  "replace_variables (JString ''a{y}b'') [(''x'', JString ''-'')] = Inr (JString ''a{y}b'')"
proof -
  have h: "brace_free ''y'' \<and> ''y'' \<notin> fst ` set [(''x'', JString ''-'')]
           \<and> substitutable [(''x'', JString ''-'')]"
    by (simp add: brace_free_def substitutable_def replacement_of_def)
  from substitution_fidelity[of "''y''" "[(''x'', JString ''-'')]" "''a''" "''b''"] h
  obtain a b where
    ab: "replace_variables (JString (''a'' @ ''{'' @ ''y'' @ ''}'' @ ''b'')) [(''x'', JString ''-'')]
           = Inr (JString (a @ ''{'' @ ''y'' @ ''}'' @ b))"
      "replace_variables (JString ''a'') [(''x'', JString ''-'')] = Inr (JString a)"
      "replace_variables (JString ''b'') [(''x'', JString ''-'')] = Inr (JString b)"
    by blast
  have "a = ''a''" "b = ''b''"
    using ab(2,3) by (simp_all add: replace_variables_def replacement_of_def)
  then show ?thesis using ab(1) by simp
qed


end
